theory Spec2Isabelle
  imports Complex_Main "HOL-Library.Word"
begin

unbundle bit_operations_syntax

section \<open>Membranes, namespaces and tensors: the data model\<close>

text \<open>
  The membrane framework of \<^verbatim>\<open>src/src/ggml-p9ml.c\<close> is embedded over an explicit store.
  Membranes, namespaces and tensors live at addresses; a C pointer is an
  \<open>addr option\<close>, with \<open>None\<close> for \<^verbatim>\<open>NULL\<close>. Every function returns an \<open>option\<close>:
  \<open>None\<close> stands for a call whose behaviour C leaves undefined (access through a dangling
  pointer or outside an array, division by zero) or whose recursion is deeper than the
  fuel given; \<open>Some\<close> carries the C return value and the store after the call.
\<close>

type_synonym addr = nat

text \<open>
  A \<^verbatim>\<open>float\<close> is its 32-bit pattern. The arithmetic of the machine's floating-point
  unit is a parameter of the functions that compute with floats.
\<close>

type_synonym f32 = "32 word"

record fpu =
  f32_of_u32 :: "32 word \<Rightarrow> f32"
  f32_add :: "f32 \<Rightarrow> f32 \<Rightarrow> f32"
  f32_sub :: "f32 \<Rightarrow> f32 \<Rightarrow> f32"
  f32_mul :: "f32 \<Rightarrow> f32 \<Rightarrow> f32"
  f32_div :: "f32 \<Rightarrow> f32 \<Rightarrow> f32"

text \<open>Bit patterns of the float literals of the source.\<close>

definition F32_0_5 :: f32 where "F32_0_5 = 0x3F000000"
definition F32_1_0 :: f32 where "F32_1_0 = 0x3F800000"
definition F32_2_0 :: f32 where "F32_2_0 = 0x40000000"
definition F32_0_1 :: f32 where "F32_0_1 = 0x3DCCCCCD"
definition F32_0_001 :: f32 where "F32_0_001 = 0x3A83126F"

text \<open>
  Modelled from the spec: \<^verbatim>\<open>enum ggml_type\<close> and \<^verbatim>\<open>struct ggml_tensor\<close> are declared
  by the tensor engine, outside the sources. The element type is one of Float32, Float16,
  a quantized kind, or another type; a tensor offers its element type, its element count
  (\<^verbatim>\<open>ggml_nelements\<close>) and its data pointer, which the source reads as a \<^verbatim>\<open>float\<close> array.
\<close>

datatype ggml_type = GGML_TYPE_F32 | GGML_TYPE_F16 | GGML_TYPE_QUANT nat | GGML_TYPE_OTHER

record ggml_tensor =
  ttype :: ggml_type
  nelements :: nat
  data :: "f32 list option"

record ggml_p9ml_qat_config =
  target_type :: ggml_type
  noise_scale :: f32
  per_channel :: bool
  mixed_precision :: bool
  temperature :: f32
  num_steps :: int
  learning_rate :: f32
  tile_size :: int
  use_reference :: bool

text \<open>
  Modelled from the spec: \<^verbatim>\<open>struct ggml_p9ml_membrane\<close> and \<^verbatim>\<open>struct ggml_p9ml_namespace\<close>
  are declared in a header outside the sources; the fields are the ones the functions
  read and write. The name is a character array of \<^verbatim>\<open>P9ML_MEMBRANE_NAME_MAX\<close> bytes.
  The three arrays are owned by the membrane and held by value, \<open>None\<close> when their
  allocation failed; the copied configuration is held by value, \<open>None\<close> for \<^verbatim>\<open>NULL\<close>.
\<close>

record ggml_p9ml_membrane =
  name :: string
  level :: int
  ctx :: "addr option"
  ns :: "addr option"
  parent :: "addr option"
  children :: "addr option list option"
  num_children :: int
  max_children :: int
  objects :: "addr option list option"
  num_objects :: int
  max_objects :: int
  rules :: "addr option list option"
  num_rules :: int
  max_rules :: int
  qat_config :: "ggml_p9ml_qat_config option"

record ggml_p9ml_namespace =
  ns_name :: string
  ns_root :: "addr option"
  ns_backend :: "addr option"
  ns_noise_scale :: f32
  ns_target_bits :: int
  ns_mixed_precision :: bool
  ns_total_params :: nat
  ns_quantized_params :: nat
  ns_compression_ratio :: f32

text \<open>
  The store. \<open>seed\<close> is the \<^verbatim>\<open>static unsigned int seed\<close> of the noise generator.
  \<open>malloc_ok\<close> tells for each call of \<^verbatim>\<open>malloc\<close>, counted by \<open>malloc_calls\<close>, whether it
  succeeds; \<open>heap_top\<close> is the address the next allocated structure gets.
\<close>

record state =
  membranes :: "addr \<rightharpoonup> ggml_p9ml_membrane"
  namespaces :: "addr \<rightharpoonup> ggml_p9ml_namespace"
  tensors :: "addr \<rightharpoonup> ggml_tensor"
  seed :: "32 word"
  malloc_ok :: "nat \<Rightarrow> bool"
  malloc_calls :: nat
  heap_top :: addr

text \<open>Writing a structure back to its address.\<close>

definition put_membrane :: "addr \<Rightarrow> ggml_p9ml_membrane \<Rightarrow> state \<Rightarrow> state" where
  "put_membrane a m st = st\<lparr>membranes := (membranes st)(a := Some m)\<rparr>"

definition put_namespace :: "addr \<Rightarrow> ggml_p9ml_namespace \<Rightarrow> state \<Rightarrow> state" where
  "put_namespace k n st = st\<lparr>namespaces := (namespaces st)(k := Some n)\<rparr>"

definition P9ML_DEFAULT_MAX_CHILDREN :: int where "P9ML_DEFAULT_MAX_CHILDREN = 16"
definition P9ML_DEFAULT_MAX_OBJECTS :: int where "P9ML_DEFAULT_MAX_OBJECTS = 256"
definition P9ML_DEFAULT_MAX_RULES :: int where "P9ML_DEFAULT_MAX_RULES = 64"
definition P9ML_MEMBRANE_NAME_MAX :: nat where "P9ML_MEMBRANE_NAME_MAX = 64"

subsection \<open>The C library\<close>

text \<open>\<^verbatim>\<open>malloc\<close>: the outcome of this call, and the store with the call counted.\<close>

definition malloc :: "state \<Rightarrow> bool \<times> state" where
  "malloc st = (malloc_ok st (malloc_calls st), st\<lparr>malloc_calls := Suc (malloc_calls st)\<rparr>)"

definition NUL :: char where "NUL = CHR 0x00"

text \<open>The C string held by a character array: the characters before the first NUL.\<close>

definition c_str :: "string \<Rightarrow> string" where
  "c_str buf = takeWhile (\<lambda>c. c \<noteq> NUL) buf"

text \<open>
  \<^verbatim>\<open>strncpy(dst, src, n)\<close> writes exactly \<open>n\<close> characters: those of the string \<open>src\<close>,
  at most \<open>n\<close> of them, then NUL padding.
\<close>

definition strncpy :: "string \<Rightarrow> nat \<Rightarrow> string" where
  "strncpy src n = (let s = take n (c_str src) in s @ replicate (n - length s) NUL)"

text \<open>
  The two statements that fill a name array of \<^verbatim>\<open>P9ML_MEMBRANE_NAME_MAX\<close> bytes:
  \<^verbatim>\<open>strncpy(name, src ? src : dflt, MAX - 1); name[MAX - 1] = '\0';\<close>
\<close>

definition set_name :: "string option \<Rightarrow> string \<Rightarrow> string" where
  "set_name src dflt =
     strncpy (case src of None \<Rightarrow> dflt | Some s \<Rightarrow> s) (P9ML_MEMBRANE_NAME_MAX - 1) @ [NUL]"

section \<open>Membrane creation and management\<close>

text \<open>\<^verbatim>\<open>malloc\<close> of an array of \<open>n\<close> pointers followed by \<^verbatim>\<open>memset\<close> to zero when it succeeded.\<close>

definition alloc_array :: "int \<Rightarrow> state \<Rightarrow> addr option list option \<times> state" where
  "alloc_array n st =
     (case malloc st of (ok, st') \<Rightarrow> (if ok then Some (replicate (nat n) None) else None, st'))"

definition ggml_p9ml_membrane_init_arrays ::
  "ggml_p9ml_membrane \<Rightarrow> state \<Rightarrow> ggml_p9ml_membrane \<times> state" where
  "ggml_p9ml_membrane_init_arrays m st =
     (let (cs, st1) = alloc_array (max_children m) st;
          (os, st2) = alloc_array (max_objects m) st1;
          (rs, st3) = alloc_array (max_rules m) st2
      in (m\<lparr>children := cs, objects := os, rules := rs\<rparr>, st3))"

text \<open>
  \<^verbatim>\<open>ggml_p9ml_membrane_new\<close> returns the pointer to the new membrane, \<^verbatim>\<open>NULL\<close> when the
  structure could not be allocated.
\<close>

definition ggml_p9ml_membrane_new ::
  "string option \<Rightarrow> int \<Rightarrow> addr option \<Rightarrow> state \<Rightarrow> addr option \<times> state" where
  "ggml_p9ml_membrane_new nm lvl cx st =
     (case malloc st of (ok, st1) \<Rightarrow>
      if \<not> ok then (None, st1)
      else
        let a = heap_top st1;
            m = \<lparr>name = set_name nm ''unnamed'', level = lvl, ctx = cx, ns = None,
                 parent = None, children = None, num_children = 0,
                 max_children = P9ML_DEFAULT_MAX_CHILDREN,
                 objects = None, num_objects = 0, max_objects = P9ML_DEFAULT_MAX_OBJECTS,
                 rules = None, num_rules = 0, max_rules = P9ML_DEFAULT_MAX_RULES,
                 qat_config = None\<rparr>
        in case ggml_p9ml_membrane_init_arrays m (st1\<lparr>heap_top := Suc a\<rparr>) of (m', st2) \<Rightarrow>
             (Some a, put_membrane a m' st2))"

text \<open>
  The four assignments of \<^verbatim>\<open>ggml_p9ml_membrane_add_child\<close> after its checks, one store
  per assignment, each reading the store the previous one left, so that
  \<open>parent = child\<close> behaves as in C.
\<close>

definition attach_child :: "addr \<Rightarrow> addr \<Rightarrow> state \<Rightarrow> state option" where
  "attach_child p c st =
     (case membranes st p of None \<Rightarrow> None
      | Some pm \<Rightarrow>
         (case children pm of None \<Rightarrow> None
          | Some cs \<Rightarrow>
             if num_children pm < 0 \<or> nat (num_children pm) \<ge> length cs then None
             else
               let st1 = put_membrane p
                           (pm\<lparr>children := Some (cs[nat (num_children pm) := Some c])\<rparr>) st
               in (case membranes st1 c of None \<Rightarrow> None
                   | Some cm \<Rightarrow>
                      let st2 = put_membrane c (cm\<lparr>parent := Some p\<rparr>) st1 in
                      (case membranes st2 p of None \<Rightarrow> None
                       | Some pm2 \<Rightarrow>
                          (case membranes st2 c of None \<Rightarrow> None
                           | Some cm2 \<Rightarrow>
                              let st3 = put_membrane c (cm2\<lparr>ns := ns pm2\<rparr>) st2 in
                              (case membranes st3 p of None \<Rightarrow> None
                               | Some pm3 \<Rightarrow>
                                  Some (put_membrane p
                                          (pm3\<lparr>num_children := num_children pm3 + 1\<rparr>)
                                          st3)))))))"

definition ggml_p9ml_membrane_add_child ::
  "addr option \<Rightarrow> addr option \<Rightarrow> state \<Rightarrow> (int \<times> state) option" where
  "ggml_p9ml_membrane_add_child pp cp st =
     (case (pp, cp) of
        (None, _) \<Rightarrow> Some (- 1, st)
      | (Some p, None) \<Rightarrow> Some (- 1, st)
      | (Some p, Some c) \<Rightarrow>
         (case membranes st p of None \<Rightarrow> None
          | Some pm \<Rightarrow>
             if num_children pm \<ge> max_children pm then Some (- 1, st)
             else map_option (Pair 0) (attach_child p c st)))"

definition ggml_p9ml_membrane_add_object ::
  "addr option \<Rightarrow> addr option \<Rightarrow> state \<Rightarrow> (int \<times> state) option" where
  "ggml_p9ml_membrane_add_object mp tp st =
     (case (mp, tp) of
        (None, _) \<Rightarrow> Some (- 1, st)
      | (Some a, None) \<Rightarrow> Some (- 1, st)
      | (Some a, Some t) \<Rightarrow>
         (case membranes st a of None \<Rightarrow> None
          | Some m \<Rightarrow>
             if num_objects m \<ge> max_objects m then Some (- 1, st)
             else
               (case objects m of None \<Rightarrow> None
                | Some os \<Rightarrow>
                   if num_objects m < 0 \<or> nat (num_objects m) \<ge> length os then None
                   else
                     Some (0, put_membrane a
                                (m\<lparr>objects := Some (os[nat (num_objects m) := Some t]),
                                   num_objects := num_objects m + 1\<rparr>) st))))"

section \<open>Namespace management\<close>

definition ggml_p9ml_namespace_new ::
  "string option \<Rightarrow> addr option \<Rightarrow> state \<Rightarrow> addr option \<times> state" where
  "ggml_p9ml_namespace_new nm be st =
     (case malloc st of (ok, st1) \<Rightarrow>
      if \<not> ok then (None, st1)
      else
        let a = heap_top st1;
            n = \<lparr>ns_name = set_name nm ''default'', ns_root = None, ns_backend = be,
                 ns_noise_scale = F32_0_1, ns_target_bits = 8, ns_mixed_precision = False,
                 ns_total_params = 0, ns_quantized_params = 0,
                 ns_compression_ratio = F32_1_0\<rparr>
        in (Some a, put_namespace a n (st1\<lparr>heap_top := Suc a\<rparr>)))"

text \<open>
  The entries \<^verbatim>\<open>children[0 .. num_children - 1]\<close> that the loops of the traversals read.
  No traversal writes the arrays or the counts (lemmas \<open>evolve_state\<close>, \<open>propagate_frame\<close>
  and \<open>apply_frame\<close> below), so the loop bounds and the entries are read once, before
  the loop.
\<close>

definition array_slice :: "int \<Rightarrow> addr option list option \<Rightarrow> addr option list option" where
  "array_slice n arr =
     (if n \<le> 0 then Some []
      else case arr of None \<Rightarrow> None
           | Some xs \<Rightarrow> if nat n \<le> length xs then Some (take (nat n) xs) else None)"

definition child_slice :: "ggml_p9ml_membrane \<Rightarrow> addr option list option" where
  "child_slice m = array_slice (num_children m) (children m)"

definition object_slice :: "ggml_p9ml_membrane \<Rightarrow> addr option list option" where
  "object_slice m = array_slice (num_objects m) (objects m)"

text \<open>
  \<^verbatim>\<open>ggml_p9ml_propagate_namespace\<close>. The first argument is the recursion depth allowed;
  the loop over the children skips \<^verbatim>\<open>NULL\<close> entries.
\<close>

fun ggml_p9ml_propagate_namespace ::
    "nat \<Rightarrow> addr option \<Rightarrow> addr option \<Rightarrow> state \<Rightarrow> state option"
  and propagate_children ::
    "nat \<Rightarrow> addr option list \<Rightarrow> addr option \<Rightarrow> state \<Rightarrow> state option" where
  "ggml_p9ml_propagate_namespace n None nsp st = Some st"
| "ggml_p9ml_propagate_namespace n (Some a) None st = Some st"
| "ggml_p9ml_propagate_namespace 0 (Some a) (Some k) st = None"
| "ggml_p9ml_propagate_namespace (Suc n) (Some a) (Some k) st =
     (case membranes st a of None \<Rightarrow> None
      | Some m \<Rightarrow>
         (case child_slice m of None \<Rightarrow> None
          | Some cs \<Rightarrow> propagate_children n cs (Some k) (put_membrane a (m\<lparr>ns := Some k\<rparr>) st)))"
| "propagate_children n [] nsp st = Some st"
| "propagate_children n (None # cs) nsp st = propagate_children n cs nsp st"
| "propagate_children n (Some b # cs) nsp st =
     (case ggml_p9ml_propagate_namespace n (Some b) nsp st of None \<Rightarrow> None
      | Some st1 \<Rightarrow> propagate_children n cs nsp st1)"

definition ggml_p9ml_namespace_set_root ::
  "nat \<Rightarrow> addr option \<Rightarrow> addr option \<Rightarrow> state \<Rightarrow> (int \<times> state) option" where
  "ggml_p9ml_namespace_set_root n nsp rootp st =
     (case (nsp, rootp) of
        (None, _) \<Rightarrow> Some (- 1, st)
      | (Some k, None) \<Rightarrow> Some (- 1, st)
      | (Some k, Some r) \<Rightarrow>
         (case namespaces st k of None \<Rightarrow> None
          | Some nsr \<Rightarrow>
             map_option (Pair 0)
               (ggml_p9ml_propagate_namespace n (Some r) (Some k)
                  (put_namespace k (nsr\<lparr>ns_root := Some r\<rparr>) st))))"

section \<open>Data-free QAT\<close>

text \<open>
  \<^verbatim>\<open>ggml_p9ml_qat_config_new\<close> returns the new configuration, \<^verbatim>\<open>NULL\<close> when it could not
  be allocated.
\<close>

definition ggml_p9ml_qat_config_new ::
  "ggml_type \<Rightarrow> f32 \<Rightarrow> state \<Rightarrow> ggml_p9ml_qat_config option \<times> state" where
  "ggml_p9ml_qat_config_new ty scale st =
     (case malloc st of (ok, st1) \<Rightarrow>
      if \<not> ok then (None, st1)
      else (Some \<lparr>target_type = ty, noise_scale = scale, per_channel = True,
                  mixed_precision = False, temperature = F32_1_0, num_steps = 100,
                  learning_rate = F32_0_001, tile_size = 3, use_reference = True\<rparr>, st1))"

text \<open>
  \<^verbatim>\<open>ggml_p9ml_generate_noise\<close>: one step of the linear congruential generator on the
  32-bit seed (\<^verbatim>\<open>seed = seed * 1103515245 + 12345\<close>, in \<^verbatim>\<open>unsigned int\<close>), then
  \<^verbatim>\<open>(normalized - 0.5f) * 2.0f * scale\<close>. It returns the noise and the new seed.
\<close>

definition lcg_step :: "32 word \<Rightarrow> 32 word" where
  "lcg_step sd = sd * 1103515245 + 12345"

definition ggml_p9ml_generate_noise :: "fpu \<Rightarrow> f32 \<Rightarrow> 32 word \<Rightarrow> f32 \<times> 32 word" where
  "ggml_p9ml_generate_noise F scale sd =
     (let sd' = lcg_step sd;
          normalized = f32_div F (f32_of_u32 F (sd' AND 0x7FFFFFFF)) (f32_of_u32 F 0x7FFFFFFF)
      in (f32_mul F (f32_mul F (f32_sub F normalized F32_0_5) F32_2_0) scale, sd'))"

text \<open>The loop \<^verbatim>\<open>data[j] += ggml_p9ml_generate_noise(config->noise_scale)\<close> over a run of elements.\<close>

fun add_noise :: "fpu \<Rightarrow> f32 \<Rightarrow> f32 list \<Rightarrow> 32 word \<Rightarrow> f32 list \<times> 32 word" where
  "add_noise F scale [] sd = ([], sd)"
| "add_noise F scale (x # xs) sd =
     (let (z, sd1) = ggml_p9ml_generate_noise F scale sd;
          (ys, sd2) = add_noise F scale xs sd1
      in (f32_add F x z # ys, sd2))"

text \<open>
  One round of the loop over \<^verbatim>\<open>membrane->objects\<close>: a \<^verbatim>\<open>NULL\<close> entry, a tensor that is
  neither F32 nor F16 and a tensor without data are skipped; otherwise the first
  \<^verbatim>\<open>ggml_nelements(tensor)\<close> floats of the data receive noise.
\<close>

definition quant_tensor ::
  "fpu \<Rightarrow> ggml_p9ml_qat_config \<Rightarrow> addr option \<Rightarrow> state \<Rightarrow> state option" where
  "quant_tensor F config tp st =
     (case tp of None \<Rightarrow> Some st
      | Some t \<Rightarrow>
         (case tensors st t of None \<Rightarrow> None
          | Some T \<Rightarrow>
             if ttype T \<noteq> GGML_TYPE_F32 \<and> ttype T \<noteq> GGML_TYPE_F16 then Some st
             else
               (case data T of None \<Rightarrow> Some st
                | Some d \<Rightarrow>
                   if nelements T > length d then None
                   else
                     let (ys, sd) = add_noise F (noise_scale config)
                                      (take (nelements T) d) (seed st)
                     in Some (st\<lparr>tensors := (tensors st)
                                   (t := Some (T\<lparr>data := Some (ys @ drop (nelements T) d)\<rparr>)),
                                 seed := sd\<rparr>))))"

fun quant_objects ::
  "fpu \<Rightarrow> ggml_p9ml_qat_config \<Rightarrow> addr option list \<Rightarrow> state \<Rightarrow> state option" where
  "quant_objects F config [] st = Some st"
| "quant_objects F config (tp # tps) st =
     (case quant_tensor F config tp st of None \<Rightarrow> None
      | Some st1 \<Rightarrow> quant_objects F config tps st1)"

text \<open>
  The copy of the configuration: made only when the membrane has none; \<open>False\<close> when the
  allocation of the copy failed.
\<close>

definition copy_config ::
  "addr \<Rightarrow> ggml_p9ml_membrane \<Rightarrow> ggml_p9ml_qat_config \<Rightarrow> state \<Rightarrow> bool \<times> state" where
  "copy_config a m config st =
     (if qat_config m = None then
        (let (ok, st1) = malloc st
         in if ok then (True, put_membrane a (m\<lparr>qat_config := Some config\<rparr>) st1)
            else (False, st1))
      else (True, st))"

text \<open>
  \<^verbatim>\<open>ggml_p9ml_apply_data_free_qat\<close>. The first argument is the floating-point unit, the
  second the recursion depth allowed. Beside the return value, the result lists the
  membranes the pass acted on, in the order it reached their object loop. The value a
  recursive call returns is dropped, as in the source.
\<close>

fun ggml_p9ml_apply_data_free_qat ::
    "fpu \<Rightarrow> nat \<Rightarrow> addr option \<Rightarrow> ggml_p9ml_qat_config option \<Rightarrow> state
       \<Rightarrow> (int \<times> addr list \<times> state) option"
  and qat_children ::
    "fpu \<Rightarrow> nat \<Rightarrow> addr option list \<Rightarrow> ggml_p9ml_qat_config \<Rightarrow> state
       \<Rightarrow> (addr list \<times> state) option" where
  "ggml_p9ml_apply_data_free_qat F n None cp st = Some (- 1, [], st)"
| "ggml_p9ml_apply_data_free_qat F n (Some a) None st = Some (- 1, [], st)"
| "ggml_p9ml_apply_data_free_qat F 0 (Some a) (Some config) st = None"
| "ggml_p9ml_apply_data_free_qat F (Suc n) (Some a) (Some config) st =
     (case membranes st a of None \<Rightarrow> None
      | Some m \<Rightarrow>
         (case copy_config a m config st of
            (False, st1) \<Rightarrow> Some (- 1, [], st1)
          | (True, st1) \<Rightarrow>
             (case object_slice m of None \<Rightarrow> None
              | Some ts \<Rightarrow>
                 (case quant_objects F config ts st1 of None \<Rightarrow> None
                  | Some st2 \<Rightarrow>
                     (case child_slice m of None \<Rightarrow> None
                      | Some cs \<Rightarrow>
                         (case qat_children F n cs config st2 of None \<Rightarrow> None
                          | Some (vis, st3) \<Rightarrow> Some (0, a # vis, st3)))))))"
| "qat_children F n [] config st = Some ([], st)"
| "qat_children F n (c # cs) config st =
     (case ggml_p9ml_apply_data_free_qat F n c (Some config) st of None \<Rightarrow> None
      | Some (r, vis1, st1) \<Rightarrow>
         (case qat_children F n cs config st1 of None \<Rightarrow> None
          | Some (vis2, st2) \<Rightarrow> Some (vis1 @ vis2, st2)))"

text \<open>
  \<^verbatim>\<open>ggml_p9ml_forward_tiled_qat\<close>. For each tensor the source computes
  \<^verbatim>\<open>n_tiles = (n_elements + tile_size - 1) / tile_size\<close>, a division by zero when
  \<^verbatim>\<open>tile_size\<close> is 0, and runs an empty loop over the tiles. There is no loop over the
  children: the list of membranes acted on is the membrane given.
\<close>

definition tile_tensor :: "int \<Rightarrow> addr option \<Rightarrow> state \<Rightarrow> state option" where
  "tile_tensor tsz tp st =
     (case tp of None \<Rightarrow> Some st
      | Some t \<Rightarrow>
         (case tensors st t of None \<Rightarrow> None
          | Some T \<Rightarrow> if tsz = 0 then None else Some st))"

fun tile_objects :: "int \<Rightarrow> addr option list \<Rightarrow> state \<Rightarrow> state option" where
  "tile_objects tsz [] st = Some st"
| "tile_objects tsz (tp # tps) st =
     (case tile_tensor tsz tp st of None \<Rightarrow> None | Some st1 \<Rightarrow> tile_objects tsz tps st1)"

definition ggml_p9ml_forward_tiled_qat ::
  "addr option \<Rightarrow> ggml_p9ml_qat_config option \<Rightarrow> addr option \<Rightarrow> state
     \<Rightarrow> (int \<times> addr list \<times> state) option" where
  "ggml_p9ml_forward_tiled_qat mp cp reference st =
     (case (mp, cp) of
        (None, _) \<Rightarrow> Some (- 1, [], st)
      | (Some a, None) \<Rightarrow> Some (- 1, [], st)
      | (Some a, Some config) \<Rightarrow>
         (case membranes st a of None \<Rightarrow> None
          | Some m \<Rightarrow>
             (case object_slice m of None \<Rightarrow> None
              | Some ts \<Rightarrow>
                 (case tile_objects (tile_size config) ts st of None \<Rightarrow> None
                  | Some st1 \<Rightarrow> Some (0, [a], st1)))))"

text \<open>
  \<^verbatim>\<open>ggml_p9ml_mixed_precision_quantize\<close>. For each tensor the source reads the element
  count and compares it with 1000000; both branches are empty. There is no loop over the
  children.
\<close>

definition analyze_tensor :: "addr option \<Rightarrow> state \<Rightarrow> state option" where
  "analyze_tensor tp st =
     (case tp of None \<Rightarrow> Some st
      | Some t \<Rightarrow>
         (case tensors st t of None \<Rightarrow> None
          | Some T \<Rightarrow> if nelements T > 1000000 then Some st else Some st))"

fun analyze_objects :: "addr option list \<Rightarrow> state \<Rightarrow> state option" where
  "analyze_objects [] st = Some st"
| "analyze_objects (tp # tps) st =
     (case analyze_tensor tp st of None \<Rightarrow> None | Some st1 \<Rightarrow> analyze_objects tps st1)"

definition ggml_p9ml_mixed_precision_quantize ::
  "addr option \<Rightarrow> f32 \<Rightarrow> state \<Rightarrow> (int \<times> addr list \<times> state) option" where
  "ggml_p9ml_mixed_precision_quantize mp quality_threshold st =
     (case mp of None \<Rightarrow> Some (- 1, [], st)
      | Some a \<Rightarrow>
         (case membranes st a of None \<Rightarrow> None
          | Some m \<Rightarrow>
             (case object_slice m of None \<Rightarrow> None
              | Some ts \<Rightarrow>
                 (case analyze_objects ts st of None \<Rightarrow> None
                  | Some st1 \<Rightarrow> Some (0, [a], st1)))))"

section \<open>Membrane evolution\<close>

text \<open>
  \<^verbatim>\<open>ggml_p9ml_membrane_evolve\<close>, with the recursion depth allowed as first argument. As
  for the other passes, the result lists the membranes acted on, in order.
\<close>

fun ggml_p9ml_membrane_evolve ::
    "nat \<Rightarrow> addr option \<Rightarrow> state \<Rightarrow> (int \<times> addr list \<times> state) option"
  and evolve_children ::
    "nat \<Rightarrow> addr option list \<Rightarrow> state \<Rightarrow> (addr list \<times> state) option" where
  "ggml_p9ml_membrane_evolve n None st = Some (- 1, [], st)"
| "ggml_p9ml_membrane_evolve 0 (Some a) st = None"
| "ggml_p9ml_membrane_evolve (Suc n) (Some a) st =
     (case membranes st a of None \<Rightarrow> None
      | Some m \<Rightarrow>
         (case child_slice m of None \<Rightarrow> None
          | Some cs \<Rightarrow>
             (case evolve_children n cs st of None \<Rightarrow> None
              | Some (vis, st1) \<Rightarrow> Some (0, a # vis, st1))))"
| "evolve_children n [] st = Some ([], st)"
| "evolve_children n (c # cs) st =
     (case ggml_p9ml_membrane_evolve n c st of None \<Rightarrow> None
      | Some (r, vis1, st1) \<Rightarrow>
         (case evolve_children n cs st1 of None \<Rightarrow> None
          | Some (vis2, st2) \<Rightarrow> Some (vis1 @ vis2, st2)))"

section \<open>Well-formed membrane structures\<close>

text \<open>
  \<open>tree_inv P st d a\<close>: the membrane at \<open>a\<close> is allocated, satisfies \<open>P\<close>, its child array
  covers \<^verbatim>\<open>num_children\<close> entries, and the same holds for every child, through at most
  \<open>d\<close> levels. Such a structure has no cycle.
\<close>

fun tree_inv :: "(ggml_p9ml_membrane \<Rightarrow> bool) \<Rightarrow> state \<Rightarrow> nat \<Rightarrow> addr \<Rightarrow> bool" where
  "tree_inv P st 0 a = False"
| "tree_inv P st (Suc d) a =
     (case membranes st a of None \<Rightarrow> False
      | Some m \<Rightarrow>
         P m \<and>
         (case child_slice m of None \<Rightarrow> False
          | Some cs \<Rightarrow>
             list_all (\<lambda>c. case c of None \<Rightarrow> True | Some b \<Rightarrow> tree_inv P st d b) cs))"

text \<open>The membranes below \<open>a\<close>, \<open>a\<close> first, then those below each child in array order.\<close>

fun preorder :: "state \<Rightarrow> nat \<Rightarrow> addr \<Rightarrow> addr list" where
  "preorder st 0 a = []"
| "preorder st (Suc d) a =
     (case membranes st a of None \<Rightarrow> []
      | Some m \<Rightarrow>
         a # concat (map (\<lambda>c. case c of None \<Rightarrow> [] | Some b \<Rightarrow> preorder st d b)
                       (case child_slice m of None \<Rightarrow> [] | Some cs \<Rightarrow> cs)))"

text \<open>\<open>reachable st a b\<close>: \<open>b\<close> is \<open>a\<close> or is reached from \<open>a\<close> through child pointers.\<close>

inductive reachable :: "state \<Rightarrow> addr \<Rightarrow> addr \<Rightarrow> bool" for st :: state where
  reachable_self: "reachable st a a"
| reachable_child:
    "membranes st a = Some m \<Longrightarrow> child_slice m = Some cs \<Longrightarrow> Some c \<in> set cs \<Longrightarrow>
     reachable st c b \<Longrightarrow> reachable st a b"

text \<open>
  The objects of a membrane can be processed: the object array covers \<^verbatim>\<open>num_objects\<close>
  entries, every entry is \<^verbatim>\<open>NULL\<close> or an allocated tensor, and a float tensor with data
  has at least \<^verbatim>\<open>ggml_nelements\<close> floats.
\<close>

definition tensor_ok :: "state \<Rightarrow> addr option \<Rightarrow> bool" where
  "tensor_ok st tp =
     (case tp of None \<Rightarrow> True
      | Some t \<Rightarrow>
         (case tensors st t of None \<Rightarrow> False
          | Some T \<Rightarrow>
             (case data T of None \<Rightarrow> True
              | Some d \<Rightarrow>
                  ttype T \<noteq> GGML_TYPE_F32 \<and> ttype T \<noteq> GGML_TYPE_F16 \<or> nelements T \<le> length d)))"

definition objects_ok :: "state \<Rightarrow> ggml_p9ml_membrane \<Rightarrow> bool" where
  "objects_ok st m =
     (case object_slice m of None \<Rightarrow> False | Some ts \<Rightarrow> list_all (tensor_ok st) ts)"

text \<open>
  The bounds that \<^verbatim>\<open>ggml_p9ml_membrane_new\<close> establishes when its arrays are allocated and
  that \<^verbatim>\<open>add_child\<close> and \<^verbatim>\<open>add_object\<close> keep: the counts lie between 0 and the capacities,
  and the arrays have the capacities as lengths.
\<close>

definition membrane_inv :: "ggml_p9ml_membrane \<Rightarrow> bool" where
  "membrane_inv m =
     (0 \<le> num_children m \<and> num_children m \<le> max_children m \<and>
      (case children m of None \<Rightarrow> False | Some cs \<Rightarrow> length cs = nat (max_children m)) \<and>
      0 \<le> num_objects m \<and> num_objects m \<le> max_objects m \<and>
      (case objects m of None \<Rightarrow> False | Some os \<Rightarrow> length os = nat (max_objects m)))"

section \<open>Relations between the store before and after a traversal\<close>

abbreviation any_membrane :: "ggml_p9ml_membrane \<Rightarrow> bool" where
  "any_membrane \<equiv> \<lambda>_. True"

text \<open>Two stores in which every membrane has the same children.\<close>

definition same_links :: "state \<Rightarrow> state \<Rightarrow> bool" where
  "same_links st st' =
     (\<forall>a. map_option child_slice (membranes st a) = map_option child_slice (membranes st' a))"

definition has_ns :: "addr \<Rightarrow> state \<Rightarrow> addr \<Rightarrow> bool" where
  "has_ns k st b = (case membranes st b of None \<Rightarrow> False | Some m \<Rightarrow> ns m = Some k)"

text \<open>
  \<open>ns_frame k st st'\<close>: \<open>st'\<close> differs from \<open>st\<close> at most in namespace pointers of
  membranes, which have become \<open>k\<close>.
\<close>

definition ns_frame :: "addr \<Rightarrow> state \<Rightarrow> state \<Rightarrow> bool" where
  "ns_frame k st st' =
     (st' = st\<lparr>membranes := membranes st'\<rparr> \<and>
      (\<forall>a. membranes st' a = membranes st a \<or>
           (\<exists>m. membranes st a = Some m \<and> membranes st' a = Some (m\<lparr>ns := Some k\<rparr>))))"

definition float_type :: "ggml_type \<Rightarrow> bool" where
  "float_type ty = (ty = GGML_TYPE_F32 \<or> ty = GGML_TYPE_F16)"

text \<open>
  \<open>qat_frame config st st'\<close>: what \<^verbatim>\<open>ggml_p9ml_apply_data_free_qat\<close> may change. A
  membrane is as before, or had no configuration and now has \<open>config\<close>; a tensor is as
  before, or is an F32 or F16 tensor with data, whose floats changed but not their number.
\<close>

definition qat_frame :: "ggml_p9ml_qat_config \<Rightarrow> state \<Rightarrow> state \<Rightarrow> bool" where
  "qat_frame config st st' =
     (namespaces st' = namespaces st \<and> malloc_ok st' = malloc_ok st \<and>
      heap_top st' = heap_top st \<and> malloc_calls st \<le> malloc_calls st' \<and>
      (\<forall>a. membranes st' a = membranes st a \<or>
           (\<exists>m. membranes st a = Some m \<and> qat_config m = None \<and>
                membranes st' a = Some (m\<lparr>qat_config := Some config\<rparr>))) \<and>
      (\<forall>t. tensors st' t = tensors st t \<or>
           (\<exists>T d d'. tensors st t = Some T \<and> float_type (ttype T) \<and> data T = Some d \<and>
                length d' = length d \<and> tensors st' t = Some (T\<lparr>data := Some d'\<rparr>))))"




text \<open>
  Modelled from the spec: an F16 element is 16 bits wide, an F32 element 32. The storage
  of an F16 tensor with \<open>n\<close> elements is \<open>2 * n\<close> bytes; read as a \<^verbatim>\<open>float\<close> array, as the
  source reads it, it has \<open>n div 2\<close> floats. \<open>f16_own_storage st t\<close>: \<open>t\<close> is an F16 tensor
  with at least one element whose data is such a storage.
\<close>

definition f16_own_storage :: "state \<Rightarrow> addr \<Rightarrow> bool" where
  "f16_own_storage st t =
     (case tensors st t of None \<Rightarrow> False
      | Some T \<Rightarrow>
         ttype T = GGML_TYPE_F16 \<and> 0 < nelements T \<and>
         (case data T of None \<Rightarrow> False | Some d \<Rightarrow> length d = nelements T div 2))"

text \<open>
  \<open>overrun st t\<close>: \<open>t\<close> is an F32 or F16 tensor whose data has fewer floats than the
  tensor has elements, so that the loop over \<^verbatim>\<open>data[j]\<close>, \<^verbatim>\<open>j < ggml_nelements(tensor)\<close>,
  leaves the data.
\<close>

definition overrun :: "state \<Rightarrow> addr \<Rightarrow> bool" where
  "overrun st t =
     (case tensors st t of None \<Rightarrow> False
      | Some T \<Rightarrow>
         float_type (ttype T) \<and>
         (case data T of None \<Rightarrow> False | Some d \<Rightarrow> length d < nelements T))"

section \<open>Arithmetic that rounds\<close>

text \<open>
  \<open>fpu_rounds F val rnd\<close>: the unit \<open>F\<close> computes on the real values \<open>val\<close> of its bit
  patterns by rounding the exact result with \<open>rnd\<close>, a monotone and odd function that
  leaves every value of a bit pattern as it is; the literals of the source have their
  values. This is IEEE-754 arithmetic in round-to-nearest, on finite operands, as long as
  no result overflows.
\<close>

definition fpu_rounds :: "fpu \<Rightarrow> (f32 \<Rightarrow> real) \<Rightarrow> (real \<Rightarrow> real) \<Rightarrow> bool" where
  "fpu_rounds F val rnd =
     ((\<forall>x y. x \<le> y \<longrightarrow> rnd x \<le> rnd y) \<and>
      (\<forall>x. rnd (- x) = - rnd x) \<and>
      (\<forall>a. rnd (val a) = val a) \<and>
      val F32_0_5 = 1 / 2 \<and> val F32_1_0 = 1 \<and> val F32_2_0 = 2 \<and>
      (\<forall>w. val (f32_of_u32 F w) = rnd (real (unat w))) \<and>
      (\<forall>a b. val (f32_add F a b) = rnd (val a + val b)) \<and>
      (\<forall>a b. val (f32_sub F a b) = rnd (val a - val b)) \<and>
      (\<forall>a b. val (f32_mul F a b) = rnd (val a * val b)) \<and>
      (\<forall>a b. val b \<noteq> 0 \<longrightarrow> val (f32_div F a b) = rnd (val a / val b)))"

text \<open>Two stores whose tensors have the same types, element counts and float values.\<close>

definition same_values :: "(f32 \<Rightarrow> real) \<Rightarrow> state \<Rightarrow> state \<Rightarrow> bool" where
  "same_values val st st' =
     (\<forall>t. map_option (\<lambda>T. (ttype T, nelements T, map_option (map val) (data T))) (tensors st' t)
          = map_option (\<lambda>T. (ttype T, nelements T, map_option (map val) (data T))) (tensors st t))"

section \<open>Example stores\<close>

text \<open>Small membranes, with the capacities of their arrays cut down to the arrays given.\<close>

definition example_membrane ::
  "addr option list \<Rightarrow> int \<Rightarrow> addr option list \<Rightarrow> int \<Rightarrow> ggml_p9ml_membrane" where
  "example_membrane cs n os k =
     \<lparr>name = set_name (Some ''node'') ''unnamed'', level = 0, ctx = None, ns = None,
      parent = None, children = Some cs, num_children = n, max_children = int (length cs),
      objects = Some os, num_objects = k, max_objects = int (length os),
      rules = Some [], num_rules = 0, max_rules = 0, qat_config = None\<rparr>"

definition example_store ::
  "(addr \<rightharpoonup> ggml_p9ml_membrane) \<Rightarrow> (addr \<rightharpoonup> ggml_tensor) \<Rightarrow> (nat \<Rightarrow> bool) \<Rightarrow> state" where
  "example_store ms ts ok =
     \<lparr>membranes = ms, namespaces = Map.empty, tensors = ts, seed = 12345,
      malloc_ok = ok, malloc_calls = 0, heap_top = 100\<rparr>"

definition empty_store :: state where
  "empty_store = example_store Map.empty Map.empty (\<lambda>_. True)"

text \<open>Membrane 1 is full, with one child and one object; membrane 2 has room for one of each.\<close>

definition full_store :: state where
  "full_store =
     example_store (Map.empty(1 := Some (example_membrane [Some 2] 1 [Some 7] 1),
                              2 := Some (example_membrane [None] 0 [None] 0)))
       Map.empty (\<lambda>_. True)"

text \<open>Three unattached membranes; only membrane 3 has a namespace.\<close>

definition family_store :: state where
  "family_store =
     example_store (Map.empty(1 := Some (example_membrane [None, None] 0 [] 0),
                              2 := Some (example_membrane [None, None] 0 [] 0),
                              3 := Some ((example_membrane [None, None] 0 [] 0)\<lparr>ns := Some 9\<rparr>)))
       Map.empty (\<lambda>_. True)"

definition family_store1 :: state where
  "family_store1 = snd (the (ggml_p9ml_membrane_add_child (Some 1) (Some 2) family_store))"

definition family_store2 :: state where
  "family_store2 = snd (the (ggml_p9ml_membrane_add_child (Some 3) (Some 1) family_store1))"

text \<open>
  An arithmetic unit for the examples: word arithmetic on the bit patterns. No example
  states a value it computes.
\<close>

definition example_fpu :: fpu where
  "example_fpu = \<lparr>f32_of_u32 = (\<lambda>w. w), f32_add = (+), f32_sub = (-), f32_mul = (*),
                   f32_div = (div)\<rparr>"

definition example_config :: "f32 \<Rightarrow> ggml_p9ml_qat_config" where
  "example_config scale =
     \<lparr>target_type = GGML_TYPE_QUANT 4, noise_scale = scale, per_channel = True,
      mixed_precision = False, temperature = F32_1_0, num_steps = 100,
      learning_rate = F32_0_001, tile_size = 3, use_reference = True\<rparr>"

definition example_namespace :: ggml_p9ml_namespace where
  "example_namespace =
     \<lparr>ns_name = set_name None ''default'', ns_root = None, ns_backend = None,
      ns_noise_scale = F32_0_1, ns_target_bits = 8, ns_mixed_precision = False,
      ns_total_params = 0, ns_quantized_params = 0, ns_compression_ratio = F32_1_0\<rparr>"

text \<open>
  Root 1 with the children 2 and 3. Membrane 2 holds the F32 tensor 10 and the quantized
  tensor 11, and carries an old namespace pointer. Namespace 7 is allocated. Every
  allocation succeeds.
\<close>

definition tree_membranes :: "addr \<rightharpoonup> ggml_p9ml_membrane" where
  "tree_membranes =
     Map.empty(1 := Some (example_membrane [Some 2, Some 3] 2 [] 0),
               2 := Some ((example_membrane [] 0 [Some 10, Some 11] 2)\<lparr>ns := Some 5\<rparr>),
               3 := Some (example_membrane [] 0 [] 0))"

definition tree_tensors :: "addr \<rightharpoonup> ggml_tensor" where
  "tree_tensors =
     Map.empty(10 := Some \<lparr>ttype = GGML_TYPE_F32, nelements = 2, data = Some [F32_1_0, F32_2_0]\<rparr>,
               11 := Some \<lparr>ttype = GGML_TYPE_QUANT 4, nelements = 2, data = Some [17, 34]\<rparr>)"

definition tree_store :: state where
  "tree_store =
     (example_store tree_membranes tree_tensors (\<lambda>_. True))
       \<lparr>namespaces := Map.empty(7 := Some example_namespace)\<rparr>"

text \<open>The same membranes and tensors, in a store where every allocation fails.\<close>

definition nomem_store :: state where
  "nomem_store = example_store tree_membranes tree_tensors (\<lambda>_. False)"



text \<open>
  Membrane 1 holds the F16 tensor 20, four elements of value 1.0 in eight bytes, and the
  quantized tensor 21.
\<close>

definition half_tensors :: "addr \<rightharpoonup> ggml_tensor" where
  "half_tensors =
     Map.empty(20 := Some \<lparr>ttype = GGML_TYPE_F16, nelements = 4,
                            data = Some [0x3C003C00, 0x3C003C00]\<rparr>,
               21 := Some \<lparr>ttype = GGML_TYPE_QUANT 4, nelements = 2, data = Some [17, 34]\<rparr>)"

definition half_store :: state where
  "half_store =
     example_store (Map.empty(1 := Some (example_membrane [] 0 [Some 20, Some 21] 2)))
       half_tensors (\<lambda>_. True)"

text \<open>
  An arithmetic unit with seven values, 0, 1/2, 1, 2 and their negatives, which rounds to
  the nearest of them, a tie away from zero, and stays at 2 and -2 beyond them. The
  literals \<^verbatim>\<open>0.5f\<close>, \<^verbatim>\<open>1.0f\<close> and \<^verbatim>\<open>2.0f\<close> of the source have their IEEE-754 bit patterns.
\<close>

definition small_rnd :: "real \<Rightarrow> real" where
  "small_rnd x =
     (if 3 / 2 \<le> x then 2 else if 3 / 4 \<le> x then 1 else if 1 / 4 \<le> x then 1 / 2
      else if - (1 / 4) < x then 0 else if - (3 / 4) < x then - (1 / 2)
      else if - (3 / 2) < x then - 1 else - 2)"

definition small_val :: "f32 \<Rightarrow> real" where
  "small_val w =
     (if w = F32_0_5 then 1 / 2 else if w = F32_1_0 then 1 else if w = F32_2_0 then 2
      else if w = 0xBF000000 then - (1 / 2) else if w = 0xBF800000 then - 1
      else if w = 0xC0000000 then - 2 else 0)"

definition small_enc :: "real \<Rightarrow> f32" where
  "small_enc x =
     (if x = 1 / 2 then F32_0_5 else if x = 1 then F32_1_0 else if x = 2 then F32_2_0
      else if x = - (1 / 2) then 0xBF000000 else if x = - 1 then 0xBF800000
      else if x = - 2 then 0xC0000000 else 0)"

definition small_fpu :: fpu where
  "small_fpu =
     \<lparr>f32_of_u32 = (\<lambda>w. small_enc (small_rnd (real (unat w)))),
      f32_add = (\<lambda>a b. small_enc (small_rnd (small_val a + small_val b))),
      f32_sub = (\<lambda>a b. small_enc (small_rnd (small_val a - small_val b))),
      f32_mul = (\<lambda>a b. small_enc (small_rnd (small_val a * small_val b))),
      f32_div = (\<lambda>a b. small_enc (small_rnd (small_val a / small_val b)))\<rparr>"

section \<open>Construction\<close>

lemma c_str_no_NUL: "NUL \<notin> set (c_str s)"
  unfolding c_str_def by (metis (mono_tags, lifting) set_takeWhileD)

lemma c_str_pad: "NUL \<notin> set s \<Longrightarrow> c_str (s @ replicate k NUL @ [NUL]) = s"
proof (induction s)
  case Nil
  show ?case by (cases k) (simp_all add: c_str_def)
next
  case (Cons x xs)
  then show ?case by (auto simp: c_str_def)
qed

lemma set_name_length: "length (set_name src d) = P9ML_MEMBRANE_NAME_MAX"
  by (simp add: set_name_def strncpy_def P9ML_MEMBRANE_NAME_MAX_def Let_def)

lemma set_name_last: "last (set_name src d) = NUL"
  by (simp add: set_name_def)

lemma c_str_set_name:
  "c_str (set_name src d) = take 63 (c_str (case src of None \<Rightarrow> d | Some s \<Rightarrow> s))"
proof -
  have "NUL \<notin> set (take 63 (c_str (case src of None \<Rightarrow> d | Some s \<Rightarrow> s)))"
    using c_str_no_NUL by (meson in_set_takeD)
  then show ?thesis
    by (simp add: set_name_def strncpy_def Let_def P9ML_MEMBRANE_NAME_MAX_def c_str_pad)
qed

lemma c_str_unnamed: "take 63 (c_str ''unnamed'') = ''unnamed''"
  by (simp add: c_str_def NUL_def)

lemma c_str_default: "take 63 (c_str ''default'') = ''default''"
  by (simp add: c_str_def NUL_def)

lemma membrane_new_ok:
  assumes "malloc_ok st (malloc_calls st)"
  shows "\<exists>st' m. ggml_p9ml_membrane_new nm lvl cx st = (Some (heap_top st), st') \<and>
           membranes st' (heap_top st) = Some m \<and>
           name m = set_name nm ''unnamed'' \<and> level m = lvl \<and> ns m = None \<and>
           parent m = None \<and> num_children m = 0 \<and> max_children m = 16 \<and>
           num_objects m = 0 \<and> max_objects m = 256 \<and> qat_config m = None"
  using assms
  by (simp add: ggml_p9ml_membrane_new_def malloc_def Let_def
      ggml_p9ml_membrane_init_arrays_def alloc_array_def put_membrane_def split_def
      P9ML_DEFAULT_MAX_CHILDREN_def P9ML_DEFAULT_MAX_OBJECTS_def)

lemma membrane_new_fail:
  assumes "\<not> malloc_ok st (malloc_calls st)"
  shows "fst (ggml_p9ml_membrane_new nm lvl cx st) = None"
  using assms by (simp add: ggml_p9ml_membrane_new_def malloc_def)

text \<open>When the three arrays are allocated too, the new membrane satisfies \<open>membrane_inv\<close>.\<close>

lemma membrane_new_inv:
  assumes "\<forall>i < 4. malloc_ok st (malloc_calls st + i)"
  shows "\<exists>st' m. ggml_p9ml_membrane_new nm lvl cx st = (Some (heap_top st), st') \<and>
           membranes st' (heap_top st) = Some m \<and> membrane_inv m"
proof -
  have "malloc_ok st (malloc_calls st)" "malloc_ok st (Suc (malloc_calls st))"
    "malloc_ok st (Suc (Suc (malloc_calls st)))"
    using assms [rule_format, of 0] assms [rule_format, of 1] assms [rule_format, of 2]
    by simp_all
  then show ?thesis
    by (simp add: ggml_p9ml_membrane_new_def malloc_def Let_def
        ggml_p9ml_membrane_init_arrays_def alloc_array_def put_membrane_def split_def
        P9ML_DEFAULT_MAX_CHILDREN_def P9ML_DEFAULT_MAX_OBJECTS_def membrane_inv_def)
qed

lemma namespace_new_ok:
  assumes "malloc_ok st (malloc_calls st)"
  shows "\<exists>st' n. ggml_p9ml_namespace_new nm be st = (Some (heap_top st), st') \<and>
           namespaces st' (heap_top st) = Some n \<and>
           ns_name n = set_name nm ''default'' \<and> ns_root n = None"
  using assms
  by (simp add: ggml_p9ml_namespace_new_def malloc_def Let_def put_namespace_def)

text \<open>
  C10. When the structure is allocated, \<^verbatim>\<open>ggml_p9ml_membrane_new\<close> and
  \<^verbatim>\<open>ggml_p9ml_namespace_new\<close> store a name array of 64 bytes whose last byte is NUL; the
  string it holds has at most 63 characters and is \<^verbatim>\<open>"unnamed"\<close>, respectively
  \<^verbatim>\<open>"default"\<close>, for a \<^verbatim>\<open>NULL\<close> name, and the first 63 characters of the name given
  otherwise, whatever that name is.
\<close>

theorem name_handling:
  assumes "malloc_ok st (malloc_calls st)"
  shows "(\<exists>a st' m. ggml_p9ml_membrane_new nm lvl cx st = (Some a, st') \<and>
            membranes st' a = Some m \<and>
            length (name m) = 64 \<and> last (name m) = NUL \<and> length (c_str (name m)) \<le> 63 \<and>
            c_str (name m) = (case nm of None \<Rightarrow> ''unnamed'' | Some s \<Rightarrow> take 63 (c_str s))) \<and>
         (\<exists>k st' n. ggml_p9ml_namespace_new nm be st = (Some k, st') \<and>
            namespaces st' k = Some n \<and>
            length (ns_name n) = 64 \<and> last (ns_name n) = NUL \<and>
            length (c_str (ns_name n)) \<le> 63 \<and>
            c_str (ns_name n) = (case nm of None \<Rightarrow> ''default'' | Some s \<Rightarrow> take 63 (c_str s)))"
proof (intro conjI)
  from membrane_new_ok [OF assms, of nm lvl cx]
  obtain st' m where *: "ggml_p9ml_membrane_new nm lvl cx st = (Some (heap_top st), st')"
    "membranes st' (heap_top st) = Some m" "name m = set_name nm ''unnamed''"
    by blast
  have "c_str (name m) = (case nm of None \<Rightarrow> ''unnamed'' | Some s \<Rightarrow> take 63 (c_str s))"
    using *(3) by (simp add: c_str_set_name c_str_unnamed split: option.splits)
  moreover have "length (c_str (name m)) \<le> 63"
    using *(3) by (simp add: c_str_set_name)
  moreover have "length (name m) = 64" "last (name m) = NUL"
    using *(3) by (simp_all add: set_name_length set_name_last P9ML_MEMBRANE_NAME_MAX_def)
  ultimately show "\<exists>a st' m. ggml_p9ml_membrane_new nm lvl cx st = (Some a, st') \<and>
            membranes st' a = Some m \<and>
            length (name m) = 64 \<and> last (name m) = NUL \<and> length (c_str (name m)) \<le> 63 \<and>
            c_str (name m) = (case nm of None \<Rightarrow> ''unnamed'' | Some s \<Rightarrow> take 63 (c_str s))"
    using *(1,2) by blast
next
  from namespace_new_ok [OF assms, of nm be]
  obtain st' n where *: "ggml_p9ml_namespace_new nm be st = (Some (heap_top st), st')"
    "namespaces st' (heap_top st) = Some n" "ns_name n = set_name nm ''default''"
    by blast
  have "c_str (ns_name n) = (case nm of None \<Rightarrow> ''default'' | Some s \<Rightarrow> take 63 (c_str s))"
    using *(3) by (simp add: c_str_set_name c_str_default split: option.splits)
  moreover have "length (c_str (ns_name n)) \<le> 63"
    using *(3) by (simp add: c_str_set_name)
  moreover have "length (ns_name n) = 64" "last (ns_name n) = NUL"
    using *(3) by (simp_all add: set_name_length set_name_last P9ML_MEMBRANE_NAME_MAX_def)
  ultimately show "\<exists>k st' n. ggml_p9ml_namespace_new nm be st = (Some k, st') \<and>
            namespaces st' k = Some n \<and>
            length (ns_name n) = 64 \<and> last (ns_name n) = NUL \<and>
            length (c_str (ns_name n)) \<le> 63 \<and>
            c_str (ns_name n) = (case nm of None \<Rightarrow> ''default'' | Some s \<Rightarrow> take 63 (c_str s))"
    using *(1,2) by blast
qed

theorem name_handling_witness:
  "malloc_ok empty_store (malloc_calls empty_store) \<and>
   (\<exists>a st' m. ggml_p9ml_membrane_new None 0 None empty_store = (Some a, st') \<and>
      membranes st' a = Some m \<and> last (name m) = NUL \<and> c_str (name m) = ''unnamed'') \<and>
   (\<exists>k st' n. ggml_p9ml_namespace_new (Some (replicate 70 CHR ''x'')) None empty_store
        = (Some k, st') \<and>
      namespaces st' k = Some n \<and> last (ns_name n) = NUL \<and> length (c_str (ns_name n)) \<le> 63)"
proof -
  have h: "malloc_ok empty_store (malloc_calls empty_store)"
    by (simp add: empty_store_def example_store_def)
  show ?thesis
    using h name_handling [OF h, of None 0 None None]
      name_handling [OF h, of "Some (replicate 70 CHR ''x'')" 0 None None]
    by simp blast
qed

section \<open>Attaching children and objects\<close>

text \<open>The store after the four assignments of a successful \<^verbatim>\<open>add_child\<close>.\<close>

lemma attach_child_Some:
  assumes "attach_child p c st = Some st'"
  shows "\<exists>pm cs cm. membranes st p = Some pm \<and> children pm = Some cs \<and>
           0 \<le> num_children pm \<and> nat (num_children pm) < length cs \<and>
           membranes st c = Some cm \<and>
           st' = st\<lparr>membranes :=
                   (if p = c
                    then (membranes st)
                           (p := Some (pm\<lparr>children := Some (cs[nat (num_children pm) := Some c]),
                                   parent := Some p, ns := ns pm,
                                   num_children := num_children pm + 1\<rparr>))
                    else (membranes st)
                           (c := Some (cm\<lparr>parent := Some p, ns := ns pm\<rparr>),
                            p := Some (pm\<lparr>children := Some (cs[nat (num_children pm) := Some c]),
                                   num_children := num_children pm + 1\<rparr>)))\<rparr>"
  using assms
  by (auto simp: attach_child_def put_membrane_def Let_def fun_upd_twist
      split: option.splits if_splits)

lemma attach_child_defined:
  assumes "membranes st p = Some pm" "children pm = Some cs" "0 \<le> num_children pm"
    "nat (num_children pm) < length cs" "membranes st c = Some cm"
  shows "\<exists>st'. attach_child p c st = Some st'"
  using assms
  by (auto simp: attach_child_def put_membrane_def Let_def split: option.splits if_splits)

lemma add_child_ok_attach:
  "ggml_p9ml_membrane_add_child (Some p) (Some c) st = Some (0, st') \<Longrightarrow>
   attach_child p c st = Some st'"
  by (auto simp: ggml_p9ml_membrane_add_child_def split: option.splits if_splits)

text \<open>The capacities are fixed at construction: neither operation changes them.\<close>

lemma add_child_capacities:
  assumes "ggml_p9ml_membrane_add_child pp cp st = Some (r, st')" "membranes st b = Some mb"
  shows "\<exists>mb'. membranes st' b = Some mb' \<and> max_children mb' = max_children mb \<and>
           max_objects mb' = max_objects mb"
proof (cases "r = 0")
  case True
  then obtain p c where pc: "pp = Some p" "cp = Some c"
    using assms(1) by (auto simp: ggml_p9ml_membrane_add_child_def split: option.splits)
  from attach_child_Some [OF add_child_ok_attach] assms(1) True pc
  obtain pm cs cm where *: "membranes st p = Some pm" "membranes st c = Some cm"
           "st' = st\<lparr>membranes :=
                   (if p = c
                    then (membranes st)
                           (p := Some (pm\<lparr>children := Some (cs[nat (num_children pm) := Some c]),
                                   parent := Some p, ns := ns pm,
                                   num_children := num_children pm + 1\<rparr>))
                    else (membranes st)
                           (c := Some (cm\<lparr>parent := Some p, ns := ns pm\<rparr>),
                            p := Some (pm\<lparr>children := Some (cs[nat (num_children pm) := Some c]),
                                   num_children := num_children pm + 1\<rparr>)))\<rparr>"
    by blast
  show ?thesis using assms(2) * by auto
next
  case False
  then have "st' = st" using assms(1)
    by (auto simp: ggml_p9ml_membrane_add_child_def split: option.splits if_splits)
  then show ?thesis using assms(2) by simp
qed

lemma add_object_capacities:
  assumes "ggml_p9ml_membrane_add_object mp tp st = Some (r, st')" "membranes st b = Some mb"
  shows "\<exists>mb'. membranes st' b = Some mb' \<and> max_children mb' = max_children mb \<and>
           max_objects mb' = max_objects mb"
  using assms
  by (auto simp: ggml_p9ml_membrane_add_object_def put_membrane_def
      split: option.splits if_splits)

text \<open>Both operations keep every membrane within its bounds.\<close>

lemma add_child_inv:
  assumes run: "ggml_p9ml_membrane_add_child pp cp st = Some (r, st')"
    and inv: "\<And>b m. membranes st b = Some m \<Longrightarrow> membrane_inv m"
    and b: "membranes st' b = Some m'"
  shows "membrane_inv m'"
proof (cases "r = 0")
  case False
  then have "st' = st" using run
    by (auto simp: ggml_p9ml_membrane_add_child_def split: option.splits if_splits)
  with inv b show ?thesis by simp
next
  case True
  then obtain p c where pc: "pp = Some p" "cp = Some c"
    using run by (auto simp: ggml_p9ml_membrane_add_child_def split: option.splits)
  from run True pc obtain pm0 where pm0: "membranes st p = Some pm0"
    "num_children pm0 < max_children pm0"
    by (auto simp: ggml_p9ml_membrane_add_child_def split: option.splits if_splits)
  from attach_child_Some [OF add_child_ok_attach] run True pc
  obtain pm cs cm where *: "membranes st p = Some pm" "children pm = Some cs"
    "membranes st c = Some cm"
    "st' = st\<lparr>membranes :=
                   (if p = c
                    then (membranes st)
                           (p := Some (pm\<lparr>children := Some (cs[nat (num_children pm) := Some c]),
                                   parent := Some p, ns := ns pm,
                                   num_children := num_children pm + 1\<rparr>))
                    else (membranes st)
                           (c := Some (cm\<lparr>parent := Some p, ns := ns pm\<rparr>),
                            p := Some (pm\<lparr>children := Some (cs[nat (num_children pm) := Some c]),
                                   num_children := num_children pm + 1\<rparr>)))\<rparr>"
    by blast
  have lt: "num_children pm < max_children pm" using pm0 *(1) by simp
  have ip: "membrane_inv pm" and ic: "membrane_inv cm" using inv * by blast+
  show ?thesis
  proof (cases "b = p")
    case True
    with b * have "m' = pm\<lparr>children := Some (cs[nat (num_children pm) := Some c]),
                                   parent := Some p, ns := ns pm,
                                   num_children := num_children pm + 1\<rparr>
                 \<or> m' = pm\<lparr>children := Some (cs[nat (num_children pm) := Some c]),
                                   num_children := num_children pm + 1\<rparr>"
      by (auto split: if_splits)
    then show ?thesis using ip lt *(2) by (auto simp: membrane_inv_def split: option.splits)
  next
    case False
    show ?thesis
    proof (cases "b = c")
      case True
      with False b * have "m' = cm\<lparr>parent := Some p, ns := ns pm\<rparr>"
        by (auto split: if_splits)
      then show ?thesis using ic by (auto simp: membrane_inv_def split: option.splits)
    next
      case nc: False
      with False b * have "membranes st b = Some m'" by (auto split: if_splits)
      then show ?thesis by (rule inv)
    qed
  qed
qed

lemma add_object_inv:
  assumes run: "ggml_p9ml_membrane_add_object mp tp st = Some (r, st')"
    and inv: "\<And>b m. membranes st b = Some m \<Longrightarrow> membrane_inv m"
    and b: "membranes st' b = Some m'"
  shows "membrane_inv m'"
proof (cases "r = 0")
  case False
  then have "st' = st" using run
    by (auto simp: ggml_p9ml_membrane_add_object_def split: option.splits if_splits)
  with inv b show ?thesis by simp
next
  case True
  with run obtain a t m os where *: "mp = Some a" "tp = Some t" "membranes st a = Some m"
    "num_objects m < max_objects m" "objects m = Some os"
    "st' = put_membrane a (m\<lparr>objects := Some (os[nat (num_objects m) := Some t]),
                                   num_objects := num_objects m + 1\<rparr>) st"
    by (auto simp: ggml_p9ml_membrane_add_object_def split: option.splits if_splits)
  have im: "membrane_inv m" using inv *(3) by blast
  show ?thesis
  proof (cases "b = a")
    case True
    with b * have "m' = m\<lparr>objects := Some (os[nat (num_objects m) := Some t]),
                                   num_objects := num_objects m + 1\<rparr>"
      by (simp add: put_membrane_def)
    then show ?thesis using im *(4,5) by (auto simp: membrane_inv_def split: option.splits)
  next
    case False
    with b * have "membranes st b = Some m'" by (simp add: put_membrane_def)
    then show ?thesis by (rule inv)
  qed
qed

text \<open>
  C5. For a membrane within its bounds (\<open>membrane_inv\<close>, which construction establishes)
  and present arguments, \<^verbatim>\<open>add_child\<close> returns 0 or -1, and -1 exactly when the child count
  equals \<^verbatim>\<open>max_children\<close>; \<^verbatim>\<open>add_object\<close> returns 0 or -1, and -1 exactly when the object
  count equals \<^verbatim>\<open>max_objects\<close>. On -1 the whole store is the one before the call. A new
  membrane has the capacities 16 and 256, and neither operation changes a capacity.
\<close>

theorem capacity_enforcement:
  assumes "membranes st a = Some m" and "membrane_inv m" and "membranes st c = Some cm"
  shows "(\<exists>r st' m'. ggml_p9ml_membrane_add_child (Some a) (Some c) st = Some (r, st') \<and>
            (r = 0 \<or> r = - 1) \<and>
            (r = - 1 \<longleftrightarrow> num_children m = max_children m) \<and>
            (r = - 1 \<longrightarrow> st' = st) \<and>
            membranes st' a = Some m' \<and>
            max_children m' = max_children m \<and> max_objects m' = max_objects m) \<and>
         (\<exists>r st' m'. ggml_p9ml_membrane_add_object (Some a) (Some t) st = Some (r, st') \<and>
            (r = 0 \<or> r = - 1) \<and>
            (r = - 1 \<longleftrightarrow> num_objects m = max_objects m) \<and>
            (r = - 1 \<longrightarrow> st' = st) \<and>
            membranes st' a = Some m' \<and>
            max_children m' = max_children m \<and> max_objects m' = max_objects m) \<and>
         (malloc_ok st (malloc_calls st) \<longrightarrow>
            (\<exists>b st' mb. ggml_p9ml_membrane_new nm lvl cx st = (Some b, st') \<and>
               membranes st' b = Some mb \<and> num_children mb = 0 \<and> num_objects mb = 0 \<and>
               max_children mb = 16 \<and> max_objects mb = 256))"
proof (intro conjI)
  obtain cs where cs: "children m = Some cs" "length cs = nat (max_children m)"
    using assms(2) by (auto simp: membrane_inv_def split: option.splits)
  have b: "0 \<le> num_children m" "num_children m \<le> max_children m"
    using assms(2) by (auto simp: membrane_inv_def)
  have "\<exists>r st'. ggml_p9ml_membrane_add_child (Some a) (Some c) st = Some (r, st') \<and>
            (r = 0 \<or> r = - 1) \<and>
            (r = - 1 \<longleftrightarrow> num_children m = max_children m) \<and>
            (r = - 1 \<longrightarrow> st' = st)"
  proof (cases "num_children m = max_children m")
    case True
    then show ?thesis using assms(1) by (simp add: ggml_p9ml_membrane_add_child_def)
  next
    case False
    then have "nat (num_children m) < length cs" using b cs by simp
    then obtain st' where "attach_child a c st = Some st'"
      using attach_child_defined [OF assms(1) cs(1) b(1) _ assms(3)] by blast
    then show ?thesis using False b assms(1) by (simp add: ggml_p9ml_membrane_add_child_def)
  qed
  then obtain r st' where run:
    "ggml_p9ml_membrane_add_child (Some a) (Some c) st = Some (r, st')"
    and r: "r = 0 \<or> r = - 1" "r = - 1 \<longleftrightarrow> num_children m = max_children m"
      "r = - 1 \<longrightarrow> st' = st"
    by blast
  from add_child_capacities [OF run assms(1)] obtain m' where
    "membranes st' a = Some m'" "max_children m' = max_children m"
    "max_objects m' = max_objects m" by blast
  with run r
  show "\<exists>r st' m'. ggml_p9ml_membrane_add_child (Some a) (Some c) st = Some (r, st') \<and>
            (r = 0 \<or> r = - 1) \<and>
            (r = - 1 \<longleftrightarrow> num_children m = max_children m) \<and>
            (r = - 1 \<longrightarrow> st' = st) \<and>
            membranes st' a = Some m' \<and>
            max_children m' = max_children m \<and> max_objects m' = max_objects m"
    by blast
next
  obtain os where os: "objects m = Some os" "length os = nat (max_objects m)"
    using assms(2) by (auto simp: membrane_inv_def split: option.splits)
  have b: "0 \<le> num_objects m" "num_objects m \<le> max_objects m"
    using assms(2) by (auto simp: membrane_inv_def)
  have "\<exists>r st'. ggml_p9ml_membrane_add_object (Some a) (Some t) st = Some (r, st') \<and>
            (r = 0 \<or> r = - 1) \<and>
            (r = - 1 \<longleftrightarrow> num_objects m = max_objects m) \<and>
            (r = - 1 \<longrightarrow> st' = st)"
    using assms(1) os b by (auto simp: ggml_p9ml_membrane_add_object_def)
  then obtain r st' where run:
    "ggml_p9ml_membrane_add_object (Some a) (Some t) st = Some (r, st')"
    and r: "r = 0 \<or> r = - 1" "r = - 1 \<longleftrightarrow> num_objects m = max_objects m"
      "r = - 1 \<longrightarrow> st' = st"
    by blast
  from add_object_capacities [OF run assms(1)] obtain m' where
    "membranes st' a = Some m'" "max_children m' = max_children m"
    "max_objects m' = max_objects m" by blast
  with run r
  show "\<exists>r st' m'. ggml_p9ml_membrane_add_object (Some a) (Some t) st = Some (r, st') \<and>
            (r = 0 \<or> r = - 1) \<and>
            (r = - 1 \<longleftrightarrow> num_objects m = max_objects m) \<and>
            (r = - 1 \<longrightarrow> st' = st) \<and>
            membranes st' a = Some m' \<and>
            max_children m' = max_children m \<and> max_objects m' = max_objects m"
    by blast
next
  show "malloc_ok st (malloc_calls st) \<longrightarrow>
            (\<exists>b st' mb. ggml_p9ml_membrane_new nm lvl cx st = (Some b, st') \<and>
               membranes st' b = Some mb \<and> num_children mb = 0 \<and> num_objects mb = 0 \<and>
               max_children mb = 16 \<and> max_objects mb = 256)"
    using membrane_new_ok [of st nm lvl cx] by blast
qed

theorem capacity_enforcement_witness:
  "ggml_p9ml_membrane_add_child (Some 1) (Some 2) full_store = Some (- 1, full_store) \<and>
   ggml_p9ml_membrane_add_object (Some 1) (Some 8) full_store = Some (- 1, full_store) \<and>
   (\<exists>st'. ggml_p9ml_membrane_add_child (Some 2) (Some 1) full_store = Some (0, st')) \<and>
   (\<exists>st'. ggml_p9ml_membrane_add_object (Some 2) (Some 8) full_store = Some (0, st')) \<and>
   malloc_ok full_store (malloc_calls full_store)"
proof -
  have m1: "membranes full_store 1 = Some (example_membrane [Some 2] 1 [Some 7] 1)"
    and m2: "membranes full_store 2 = Some (example_membrane [None] 0 [None] 0)"
    and ok: "malloc_ok full_store (malloc_calls full_store)"
    by (simp_all add: full_store_def example_store_def)
  have i1: "membrane_inv (example_membrane [Some 2] 1 [Some 7] 1)"
    and i2: "membrane_inv (example_membrane [None] 0 [None] 0)"
    by (simp_all add: membrane_inv_def example_membrane_def)
  show ?thesis
    using capacity_enforcement [OF m1 i1 m2, of 8] capacity_enforcement [OF m2 i2 m1, of 8] ok
    by (auto simp: example_membrane_def)
qed

text \<open>
  C4. A successful \<^verbatim>\<open>add_child(parent, child)\<close> sets the child's parent to \<open>parent\<close> and the
  child's namespace to the namespace the parent has at that moment. When the parent then
  gets another namespace by being attached itself (\<^verbatim>\<open>add_child(g, parent)\<close> copies the
  namespace of \<open>g\<close> into it), the child keeps the namespace it was given.
\<close>

theorem add_child_snapshot:
  "(ggml_p9ml_membrane_add_child (Some p) (Some c) st = Some (0, st1) \<longrightarrow>
      (\<exists>pm cm1. membranes st p = Some pm \<and> membranes st1 c = Some cm1 \<and>
         parent cm1 = Some p \<and> ns cm1 = ns pm)) \<and>
   (ggml_p9ml_membrane_add_child (Some p) (Some c) st = Some (0, st1) \<and>
    ggml_p9ml_membrane_add_child (Some g) (Some p) st1 = Some (0, st2) \<and> c \<noteq> p \<longrightarrow>
      (\<exists>pm gm pm2 cm2. membranes st p = Some pm \<and> membranes st1 g = Some gm \<and>
         membranes st2 p = Some pm2 \<and> ns pm2 = ns gm \<and>
         membranes st2 c = Some cm2 \<and> parent cm2 = Some p \<and> ns cm2 = ns pm))"
proof (intro conjI impI)
  assume a: "ggml_p9ml_membrane_add_child (Some p) (Some c) st = Some (0, st1)"
  from attach_child_Some [OF add_child_ok_attach [OF a]]
  show "\<exists>pm cm1. membranes st p = Some pm \<and> membranes st1 c = Some cm1 \<and>
         parent cm1 = Some p \<and> ns cm1 = ns pm"
    by auto
next
  assume "ggml_p9ml_membrane_add_child (Some p) (Some c) st = Some (0, st1) \<and>
    ggml_p9ml_membrane_add_child (Some g) (Some p) st1 = Some (0, st2) \<and> c \<noteq> p"
  then have a: "ggml_p9ml_membrane_add_child (Some p) (Some c) st = Some (0, st1)"
    and b: "ggml_p9ml_membrane_add_child (Some g) (Some p) st1 = Some (0, st2)"
    and ne: "c \<noteq> p" by simp_all
  from attach_child_Some [OF add_child_ok_attach [OF a]] ne
  obtain pm cm1 where 1: "membranes st p = Some pm" "membranes st1 c = Some cm1"
    "parent cm1 = Some p" "ns cm1 = ns pm"
    by auto
  from attach_child_Some [OF add_child_ok_attach [OF b]]
  obtain gm cs pm1 where 2: "membranes st1 g = Some gm" "membranes st1 p = Some pm1"
    "st2 = st1\<lparr>membranes :=
                   (if g = p
                    then (membranes st1)
                           (g := Some (gm\<lparr>children := Some (cs[nat (num_children gm) := Some p]),
                                   parent := Some g, ns := ns gm,
                                   num_children := num_children gm + 1\<rparr>))
                    else (membranes st1)
                           (p := Some (pm1\<lparr>parent := Some g, ns := ns gm\<rparr>),
                            g := Some (gm\<lparr>children := Some (cs[nat (num_children gm) := Some p]),
                                   num_children := num_children gm + 1\<rparr>)))\<rparr>"
    by blast
  show "\<exists>pm gm pm2 cm2. membranes st p = Some pm \<and> membranes st1 g = Some gm \<and>
         membranes st2 p = Some pm2 \<and> ns pm2 = ns gm \<and>
         membranes st2 c = Some cm2 \<and> parent cm2 = Some p \<and> ns cm2 = ns pm"
    using 1 2 ne by (cases "g = p"; cases "g = c") auto
qed

lemma family_store1_eq:
  "ggml_p9ml_membrane_add_child (Some 1) (Some 2) family_store = Some (0, family_store1)"
  by (simp add: family_store1_def family_store_def example_store_def example_membrane_def
      ggml_p9ml_membrane_add_child_def attach_child_def put_membrane_def)

lemma family_store2_eq:
  "ggml_p9ml_membrane_add_child (Some 3) (Some 1) family_store1 = Some (0, family_store2)"
  by (simp add: family_store2_def family_store1_def family_store_def example_store_def
      example_membrane_def ggml_p9ml_membrane_add_child_def attach_child_def put_membrane_def)

theorem add_child_snapshot_witness:
  "ggml_p9ml_membrane_add_child (Some 1) (Some 2) family_store = Some (0, family_store1) \<and>
   ggml_p9ml_membrane_add_child (Some 3) (Some 1) family_store1 = Some (0, family_store2) \<and>
   (\<exists>pm2 cm2. membranes family_store2 1 = Some pm2 \<and> ns pm2 = Some 9 \<and>
      membranes family_store2 2 = Some cm2 \<and> parent cm2 = Some 1 \<and> ns cm2 = None)"
  using add_child_snapshot [of 1 2 family_store family_store1 3 family_store2]
    family_store1_eq family_store2_eq
  by (auto simp: family_store_def example_store_def example_membrane_def family_store1_def
      ggml_p9ml_membrane_add_child_def attach_child_def put_membrane_def)

section \<open>Well-formed structures and evolution\<close>

lemma tree_inv_mono: "tree_inv P st d a \<Longrightarrow> tree_inv P st (Suc d) a"
proof (induction d arbitrary: a)
  case 0
  then show ?case by simp
next
  case (Suc d)
  from Suc.prems obtain m cs where m: "membranes st a = Some m" "P m" "child_slice m = Some cs"
    "list_all (\<lambda>c. case c of None \<Rightarrow> True | Some b \<Rightarrow> tree_inv P st d b) cs"
    by (auto split: option.splits)
  have "list_all (\<lambda>c. case c of None \<Rightarrow> True | Some b \<Rightarrow> tree_inv P st (Suc d) b) cs"
    using m(4) Suc.IH by (auto simp: list_all_iff simp del: tree_inv.simps split: option.splits)
  then show ?case using m by simp
qed

lemma evolve_state:
  "ggml_p9ml_membrane_evolve n p st = Some (r, vis, st') \<Longrightarrow> st' = st"
  "evolve_children n cs st = Some (vis, st') \<Longrightarrow> st' = st"
proof (induction n p st and n cs st arbitrary: r vis st' and vis st'
    rule: ggml_p9ml_membrane_evolve_evolve_children.induct)
  case (1 n st)
  then show ?case by simp
next
  case (2 a st)
  then show ?case by simp
next
  case (3 n a st)
  from "3.prems" obtain m cs v where a: "membranes st a = Some m" "child_slice m = Some cs"
      and b: "evolve_children n cs st = Some (v, st')"
    by (auto split: option.splits)
  from "3.IH" [OF a b] show ?case .
next
  case (4 n st)
  then show ?case by simp
next
  case (5 n c cs st)
  from "5.prems" obtain r v1 st1 v2
    where a: "ggml_p9ml_membrane_evolve n c st = Some (r, v1, st1)"
      and b: "evolve_children n cs st1 = Some (v2, st')"
    by (auto split: option.splits)
  from "5.IH"(1) [OF a] have "st1 = st" .
  moreover from "5.IH"(2) [OF a refl refl b] have "st' = st1" .
  ultimately show ?case by simp
qed

lemma evolve_children_preorder:
  assumes "list_all (\<lambda>c. case c of None \<Rightarrow> True
              | Some b \<Rightarrow> ggml_p9ml_membrane_evolve n (Some b) st = Some (0, preorder st n b, st)) cs"
  shows "evolve_children n cs st =
           Some (concat (map (\<lambda>c. case c of None \<Rightarrow> [] | Some b \<Rightarrow> preorder st n b) cs), st)"
  using assms
proof (induction cs)
  case Nil
  then show ?case by simp
next
  case (Cons c cs)
  then show ?case by (cases c) simp_all
qed

lemma evolve_preorder:
  "tree_inv P st n a \<Longrightarrow>
   ggml_p9ml_membrane_evolve n (Some a) st = Some (0, preorder st n a, st)"
proof (induction n arbitrary: a)
  case 0
  then show ?case by simp
next
  case (Suc n)
  from Suc.prems obtain m cs where m: "membranes st a = Some m" "child_slice m = Some cs"
    "list_all (\<lambda>c. case c of None \<Rightarrow> True | Some b \<Rightarrow> tree_inv P st n b) cs"
    by (auto split: option.splits)
  have "list_all (\<lambda>c. case c of None \<Rightarrow> True
              | Some b \<Rightarrow> ggml_p9ml_membrane_evolve n (Some b) st = Some (0, preorder st n b, st)) cs"
    unfolding list_all_iff
  proof
    fix c assume "c \<in> set cs"
    then have "case c of None \<Rightarrow> True | Some b \<Rightarrow> tree_inv P st n b"
      using m(3) by (simp add: list_all_iff)
    then show "case c of None \<Rightarrow> True
              | Some b \<Rightarrow> ggml_p9ml_membrane_evolve n (Some b) st = Some (0, preorder st n b, st)"
      using Suc.IH by (cases c) simp_all
  qed
  then have "evolve_children n cs st =
           Some (concat (map (\<lambda>c. case c of None \<Rightarrow> [] | Some b \<Rightarrow> preorder st n b) cs), st)"
    by (rule evolve_children_preorder)
  then show ?case using m(1,2) by simp
qed

section \<open>Namespace propagation\<close>

lemma same_links_refl: "same_links st st"
  by (simp add: same_links_def)

lemma same_links_sym: "same_links st st' \<Longrightarrow> same_links st' st"
  by (simp add: same_links_def)

lemma same_links_trans: "same_links st st1 \<Longrightarrow> same_links st1 st2 \<Longrightarrow> same_links st st2"
  by (simp add: same_links_def)

lemma same_links_slice:
  assumes "same_links st st'" "membranes st a = Some m" "child_slice m = cs"
  shows "\<exists>m'. membranes st' a = Some m' \<and> child_slice m' = cs"
proof -
  have "map_option child_slice (membranes st' a) = map_option child_slice (membranes st a)"
    using assms(1) by (simp add: same_links_def)
  then have "map_option child_slice (membranes st' a) = Some cs"
    using assms(2,3) by simp
  then show ?thesis by (cases "membranes st' a") simp_all
qed

lemma tree_inv_transfer:
  assumes l: "same_links st st'"
    and p: "\<And>a m m'. membranes st a = Some m \<Longrightarrow> membranes st' a = Some m' \<Longrightarrow> P m \<Longrightarrow> P' m'"
  shows "tree_inv P st d a \<Longrightarrow> tree_inv P' st' d a"
proof (induction d arbitrary: a)
  case 0
  then show ?case by simp
next
  case (Suc d)
  from Suc.prems obtain m cs where m: "membranes st a = Some m" "P m" "child_slice m = Some cs"
    "list_all (\<lambda>c. case c of None \<Rightarrow> True | Some b \<Rightarrow> tree_inv P st d b) cs"
    by (auto split: option.splits)
  from same_links_slice [OF l m(1,3)] obtain m' where
    m': "membranes st' a = Some m'" "child_slice m' = Some cs" by blast
  have "list_all (\<lambda>c. case c of None \<Rightarrow> True | Some b \<Rightarrow> tree_inv P' st' d b) cs"
    unfolding list_all_iff
  proof
    fix c assume "c \<in> set cs"
    then have "case c of None \<Rightarrow> True | Some b \<Rightarrow> tree_inv P st d b"
      using m(4) by (simp add: list_all_iff)
    then show "case c of None \<Rightarrow> True | Some b \<Rightarrow> tree_inv P' st' d b"
      using Suc.IH by (cases c) simp_all
  qed
  moreover have "P' m'" using p [OF m(1) m'(1) m(2)] .
  ultimately show ?case using m' by simp
qed

lemma reachable_links:
  assumes "same_links st st'"
  shows "reachable st a b \<Longrightarrow> reachable st' a b"
proof (induction rule: reachable.induct)
  case (reachable_self a)
  show ?case by (rule reachable.reachable_self)
next
  case (reachable_child a m cs c b)
  from same_links_slice [OF assms reachable_child(1,2)] obtain m' where
    "membranes st' a = Some m'" "child_slice m' = Some cs" by blast
  then show ?case using reachable_child(3,5) by (rule reachable.reachable_child)
qed

lemma ns_frame_refl: "ns_frame k st st"
  by (simp add: ns_frame_def)

lemma ns_frame_trans:
  assumes "ns_frame k st st1" "ns_frame k st1 st2"
  shows "ns_frame k st st2"
proof -
  have e1: "st1 = st\<lparr>membranes := membranes st1\<rparr>" and e2: "st2 = st1\<lparr>membranes := membranes st2\<rparr>"
    using assms by (simp_all add: ns_frame_def)
  have "st2 = st\<lparr>membranes := membranes st2\<rparr>"
    by (subst e2, subst e1) simp
  moreover have "membranes st2 a = membranes st a \<or>
           (\<exists>m. membranes st a = Some m \<and> membranes st2 a = Some (m\<lparr>ns := Some k\<rparr>))" for a
  proof -
    have 1: "membranes st1 a = membranes st a \<or>
           (\<exists>m. membranes st a = Some m \<and> membranes st1 a = Some (m\<lparr>ns := Some k\<rparr>))"
      using assms(1) by (simp add: ns_frame_def)
    have 2: "membranes st2 a = membranes st1 a \<or>
           (\<exists>m. membranes st1 a = Some m \<and> membranes st2 a = Some (m\<lparr>ns := Some k\<rparr>))"
      using assms(2) by (simp add: ns_frame_def)
    from 1 2 show ?thesis by (elim disjE exE conjE) (simp_all, metis)
  qed
  ultimately show ?thesis unfolding ns_frame_def by blast
qed

lemma ns_frame_put:
  "membranes st a = Some m \<Longrightarrow> ns_frame k st (put_membrane a (m\<lparr>ns := Some k\<rparr>) st)"
  by (simp add: ns_frame_def put_membrane_def)

lemma ns_frame_links:
  assumes "ns_frame k st st'"
  shows "same_links st st'"
  unfolding same_links_def
proof
  fix a
  have "membranes st' a = membranes st a \<or>
           (\<exists>m. membranes st a = Some m \<and> membranes st' a = Some (m\<lparr>ns := Some k\<rparr>))"
    using assms by (simp add: ns_frame_def)
  then show "map_option child_slice (membranes st a) = map_option child_slice (membranes st' a)"
    by (auto simp: child_slice_def)
qed

lemma ns_frame_keeps:
  assumes "ns_frame k st st'" "has_ns k st b"
  shows "has_ns k st' b"
proof -
  have "membranes st' b = membranes st b \<or>
           (\<exists>m. membranes st b = Some m \<and> membranes st' b = Some (m\<lparr>ns := Some k\<rparr>))"
    using assms(1) by (simp add: ns_frame_def)
  then show ?thesis using assms(2) by (auto simp: has_ns_def split: option.splits)
qed

lemma ns_frame_others:
  assumes "ns_frame k st st'"
  shows "namespaces st' = namespaces st \<and> tensors st' = tensors st \<and> seed st' = seed st"
proof -
  have "st' = st\<lparr>membranes := membranes st'\<rparr>" using assms by (simp add: ns_frame_def)
  then have "namespaces st' = namespaces (st\<lparr>membranes := membranes st'\<rparr>)"
    "tensors st' = tensors (st\<lparr>membranes := membranes st'\<rparr>)"
    "seed st' = seed (st\<lparr>membranes := membranes st'\<rparr>)" by simp_all
  then show ?thesis by simp
qed

lemma propagate_children_frame:
  assumes "\<And>b s s'. ggml_p9ml_propagate_namespace n (Some b) (Some k) s = Some s'
             \<Longrightarrow> ns_frame k s s'"
  shows "propagate_children n cs (Some k) st = Some st' \<Longrightarrow> ns_frame k st st'"
proof (induction cs arbitrary: st)
  case Nil
  then show ?case by (simp add: ns_frame_refl)
next
  case (Cons c cs)
  show ?case
  proof (cases c)
    case None
    then show ?thesis using Cons by simp
  next
    case (Some b)
    with Cons.prems obtain s1 where
      a: "ggml_p9ml_propagate_namespace n (Some b) (Some k) st = Some s1"
      and b: "propagate_children n cs (Some k) s1 = Some st'"
      by (auto split: option.splits)
    from assms [OF a] Cons.IH [OF b] show ?thesis by (rule ns_frame_trans)
  qed
qed

lemma propagate_frame:
  "ggml_p9ml_propagate_namespace n (Some a) (Some k) st = Some st' \<Longrightarrow> ns_frame k st st'"
proof (induction n arbitrary: a st st')
  case 0
  then show ?case by simp
next
  case (Suc n)
  from Suc.prems obtain m cs where m: "membranes st a = Some m" "child_slice m = Some cs"
    and c: "propagate_children n cs (Some k) (put_membrane a (m\<lparr>ns := Some k\<rparr>) st) = Some st'"
    by (auto split: option.splits)
  have "ns_frame k (put_membrane a (m\<lparr>ns := Some k\<rparr>) st) st'"
    using Suc.IH c by (rule propagate_children_frame)
  with ns_frame_put [OF m(1)] show ?case by (rule ns_frame_trans)
qed

lemma tree_inv_links: "same_links st st' \<Longrightarrow> tree_inv any_membrane st d a \<Longrightarrow> tree_inv any_membrane st' d a"
  by (rule tree_inv_transfer)

lemma propagate_children_reach:
  assumes IH: "\<And>b s. tree_inv any_membrane s n b \<Longrightarrow>
                 \<exists>s'. ggml_p9ml_propagate_namespace n (Some b) (Some k) s = Some s' \<and>
                      (\<forall>x. reachable s b x \<longrightarrow> has_ns k s' x)"
  shows "list_all (\<lambda>c. case c of None \<Rightarrow> True | Some b \<Rightarrow> tree_inv any_membrane st n b) cs \<Longrightarrow>
         \<exists>st'. propagate_children n cs (Some k) st = Some st' \<and>
               (\<forall>b x. Some b \<in> set cs \<longrightarrow> reachable st b x \<longrightarrow> has_ns k st' x)"
proof (induction cs arbitrary: st)
  case Nil
  then show ?case by simp
next
  case (Cons c cs)
  show ?case
  proof (cases c)
    case None
    from Cons.prems have "list_all (\<lambda>c. case c of None \<Rightarrow> True | Some b \<Rightarrow> tree_inv any_membrane st n b) cs"
      by simp
    from Cons.IH [OF this] None show ?thesis by simp
  next
    case (Some b)
    from Cons.prems Some have tb: "tree_inv any_membrane st n b"
      and tcs: "list_all (\<lambda>c. case c of None \<Rightarrow> True | Some b \<Rightarrow> tree_inv any_membrane st n b) cs"
      by simp_all
    from IH [OF tb] obtain s1 where
      s1: "ggml_p9ml_propagate_namespace n (Some b) (Some k) st = Some s1"
      and r1: "\<And>x. reachable st b x \<Longrightarrow> has_ns k s1 x" by blast
    have l1: "same_links st s1" using propagate_frame [OF s1] by (rule ns_frame_links)
    have "list_all (\<lambda>c. case c of None \<Rightarrow> True | Some b \<Rightarrow> tree_inv any_membrane s1 n b) cs"
      unfolding list_all_iff
    proof
      fix c assume "c \<in> set cs"
      then have "case c of None \<Rightarrow> True | Some b \<Rightarrow> tree_inv any_membrane st n b"
        using tcs by (simp add: list_all_iff)
      then show "case c of None \<Rightarrow> True | Some b \<Rightarrow> tree_inv any_membrane s1 n b"
        using tree_inv_links [OF l1] by (cases c) simp_all
    qed
    from Cons.IH [OF this] obtain st' where
      s2: "propagate_children n cs (Some k) s1 = Some st'"
      and r2: "\<And>b x. Some b \<in> set cs \<Longrightarrow> reachable s1 b x \<Longrightarrow> has_ns k st' x" by blast
    have f2: "ns_frame k s1 st'"
      using propagate_frame s2 by (rule propagate_children_frame)
    have "has_ns k st' x" if "Some b' \<in> set (c # cs)" "reachable st b' x" for b' x
    proof (cases "Some b' \<in> set cs")
      case True
      from reachable_links [OF l1 that(2)] have "reachable s1 b' x" .
      with True show ?thesis by (rule r2)
    next
      case False
      then have "b' = b" using that(1) Some by simp
      then have "has_ns k s1 x" using that(2) r1 by simp
      with f2 show ?thesis by (rule ns_frame_keeps)
    qed
    moreover have "propagate_children n (c # cs) (Some k) st = Some st'"
      using Some s1 s2 by simp
    ultimately show ?thesis by blast
  qed
qed

lemma reachable_cases:
  assumes "reachable st a x" "membranes st a = Some m" "child_slice m = Some cs"
  shows "x = a \<or> (\<exists>b. Some b \<in> set cs \<and> reachable st b x)"
  using assms by (cases rule: reachable.cases) auto

lemma propagate_reach:
  "tree_inv any_membrane st n a \<Longrightarrow>
   \<exists>st'. ggml_p9ml_propagate_namespace n (Some a) (Some k) st = Some st' \<and>
         (\<forall>x. reachable st a x \<longrightarrow> has_ns k st' x)"
proof (induction n arbitrary: a st)
  case 0
  then show ?case by simp
next
  case (Suc n)
  from Suc.prems obtain m cs where m: "membranes st a = Some m" "child_slice m = Some cs"
    and t: "list_all (\<lambda>c. case c of None \<Rightarrow> True | Some b \<Rightarrow> tree_inv any_membrane st n b) cs"
    by (auto split: option.splits)
  let ?s1 = "put_membrane a (m\<lparr>ns := Some k\<rparr>) st"
  have f1: "ns_frame k st ?s1" using m(1) by (rule ns_frame_put)
  then have l1: "same_links st ?s1" by (rule ns_frame_links)
  have "list_all (\<lambda>c. case c of None \<Rightarrow> True | Some b \<Rightarrow> tree_inv any_membrane ?s1 n b) cs"
    unfolding list_all_iff
  proof
    fix c assume "c \<in> set cs"
    then have "case c of None \<Rightarrow> True | Some b \<Rightarrow> tree_inv any_membrane st n b"
      using t by (simp add: list_all_iff)
    then show "case c of None \<Rightarrow> True | Some b \<Rightarrow> tree_inv any_membrane ?s1 n b"
      using tree_inv_links [OF l1] by (cases c) simp_all
  qed
  from propagate_children_reach [OF Suc.IH this] obtain st' where
    s: "propagate_children n cs (Some k) ?s1 = Some st'"
    and r: "\<And>b x. Some b \<in> set cs \<Longrightarrow> reachable ?s1 b x \<Longrightarrow> has_ns k st' x"
    by blast
  have f2: "ns_frame k ?s1 st'"
    using propagate_frame s by (rule propagate_children_frame)
  have "has_ns k ?s1 a" by (simp add: has_ns_def put_membrane_def)
  with f2 have a: "has_ns k st' a" by (rule ns_frame_keeps)
  have "has_ns k st' x" if "reachable st a x" for x
  proof -
    from reachable_cases [OF that m] show ?thesis
    proof
      assume "x = a" with a show ?thesis by simp
    next
      assume "\<exists>b. Some b \<in> set cs \<and> reachable st b x"
      then obtain b where b: "Some b \<in> set cs" "reachable st b x" by blast
      from reachable_links [OF l1 b(2)] have "reachable ?s1 b x" .
      with b(1) show ?thesis by (rule r)
    qed
  qed
  moreover have "ggml_p9ml_propagate_namespace (Suc n) (Some a) (Some k) st = Some st'"
    using m s by simp
  ultimately show ?case by blast
qed

section \<open>The data-free QAT pass\<close>

lemma qat_frame_refl: "qat_frame config st st"
  by (simp add: qat_frame_def)

lemma qat_frame_membrane:
  "qat_frame config st st' \<Longrightarrow>
   membranes st' a = membranes st a \<or>
   (\<exists>m. membranes st a = Some m \<and> qat_config m = None \<and>
        membranes st' a = Some (m\<lparr>qat_config := Some config\<rparr>))"
  by (simp add: qat_frame_def)

lemma qat_frame_tensor:
  "qat_frame config st st' \<Longrightarrow>
   tensors st' t = tensors st t \<or>
   (\<exists>T d d'. tensors st t = Some T \<and> float_type (ttype T) \<and> data T = Some d \<and>
        length d' = length d \<and> tensors st' t = Some (T\<lparr>data := Some d'\<rparr>))"
  by (simp add: qat_frame_def)

lemma qat_frame_trans:
  assumes "qat_frame config st st1" "qat_frame config st1 st2"
  shows "qat_frame config st st2"
proof -
  have m: "membranes st2 a = membranes st a \<or>
           (\<exists>m. membranes st a = Some m \<and> qat_config m = None \<and>
                membranes st2 a = Some (m\<lparr>qat_config := Some config\<rparr>))" for a
  proof -
    from qat_frame_membrane [OF assms(1), of a] show ?thesis
    proof
      assume e: "membranes st1 a = membranes st a"
      from qat_frame_membrane [OF assms(2), of a] show ?thesis
        unfolding e .
    next
      assume "\<exists>m. membranes st a = Some m \<and> qat_config m = None \<and>
                membranes st1 a = Some (m\<lparr>qat_config := Some config\<rparr>)"
      then obtain m where 1: "membranes st a = Some m" "qat_config m = None"
        "membranes st1 a = Some (m\<lparr>qat_config := Some config\<rparr>)" by blast
      from qat_frame_membrane [OF assms(2), of a] have "membranes st2 a = membranes st1 a"
        using 1(3) by auto
      with 1 show ?thesis by simp
    qed
  qed
  have t: "tensors st2 t = tensors st t \<or>
           (\<exists>T d d'. tensors st t = Some T \<and> float_type (ttype T) \<and> data T = Some d \<and>
                length d' = length d \<and> tensors st2 t = Some (T\<lparr>data := Some d'\<rparr>))" for t
  proof -
    from qat_frame_tensor [OF assms(1), of t] show ?thesis
    proof
      assume e: "tensors st1 t = tensors st t"
      from qat_frame_tensor [OF assms(2), of t] show ?thesis
        unfolding e .
    next
      assume "\<exists>T d d'. tensors st t = Some T \<and> float_type (ttype T) \<and> data T = Some d \<and>
                length d' = length d \<and> tensors st1 t = Some (T\<lparr>data := Some d'\<rparr>)"
      then obtain T d d' where 1: "tensors st t = Some T" "float_type (ttype T)"
        "data T = Some d" "length d' = length d" "tensors st1 t = Some (T\<lparr>data := Some d'\<rparr>)"
        by blast
      from qat_frame_tensor [OF assms(2), of t] show ?thesis
      proof
        assume "tensors st2 t = tensors st1 t"
        with 1 show ?thesis by auto
      next
        assume "\<exists>T d d'. tensors st1 t = Some T \<and> float_type (ttype T) \<and> data T = Some d \<and>
                length d' = length d \<and> tensors st2 t = Some (T\<lparr>data := Some d'\<rparr>)"
        then obtain d'' where "length d'' = length d'"
          "tensors st2 t = Some (T\<lparr>data := Some d''\<rparr>)"
          using 1(5) by auto
        with 1 show ?thesis by auto
      qed
    qed
  qed
  show ?thesis
    unfolding qat_frame_def using assms m t by (simp add: qat_frame_def)
qed

lemma qat_frame_links:
  assumes "qat_frame config st st'"
  shows "same_links st st'"
  unfolding same_links_def
proof
  fix a
  from qat_frame_membrane [OF assms, of a]
  show "map_option child_slice (membranes st a) = map_option child_slice (membranes st' a)"
    by (auto simp: child_slice_def)
qed

lemma add_noise_length: "length (fst (add_noise F s xs sd)) = length xs"
  by (induction xs arbitrary: sd) (simp_all add: split_def Let_def)

text \<open>
  Within one run of the noise loop every element receives one sum with one noise value,
  and the seed advances once per element.
\<close>

lemma generate_noise_seed: "snd (ggml_p9ml_generate_noise F s sd) = lcg_step sd"
  by (simp add: ggml_p9ml_generate_noise_def Let_def)

lemma add_noise_nth:
  "j < length xs \<Longrightarrow>
   fst (add_noise F s xs sd) ! j =
     f32_add F (xs ! j) (fst (ggml_p9ml_generate_noise F s ((lcg_step ^^ j) sd)))"
proof (induction xs arbitrary: j sd)
  case Nil
  then show ?case by simp
next
  case (Cons x xs)
  show ?case
  proof (cases j)
    case 0
    then show ?thesis by (simp add: split_def Let_def)
  next
    case (Suc i)
    with Cons.prems have "i < length xs" by simp
    from Cons.IH [OF this, of "snd (ggml_p9ml_generate_noise F s sd)"] Suc
    show ?thesis by (simp add: split_def Let_def generate_noise_seed funpow_swap1)
  qed
qed

lemma add_noise_seed: "snd (add_noise F s xs sd) = (lcg_step ^^ length xs) sd"
proof (induction xs arbitrary: sd)
  case Nil
  then show ?case by simp
next
  case (Cons x xs)
  then show ?case by (simp add: split_def Let_def generate_noise_seed funpow_swap1)
qed

lemma copy_config_frame:
  assumes "membranes st a = Some m" "copy_config a m config st = (ok, st1)"
  shows "qat_frame config st st1"
  using assms
  by (auto simp: copy_config_def malloc_def qat_frame_def put_membrane_def Let_def
      split: if_splits)

lemma quant_tensor_frame:
  assumes "quant_tensor F config tp st = Some st1"
  shows "qat_frame config st st1"
proof (cases tp)
  case None
  then show ?thesis using assms by (simp add: quant_tensor_def qat_frame_refl)
next
  case (Some t)
  show ?thesis
  proof (cases "st1 = st")
    case True
    then show ?thesis by (simp add: qat_frame_refl)
  next
    case False
    with assms Some obtain T d where T: "tensors st t = Some T" "float_type (ttype T)"
      "data T = Some d" "nelements T \<le> length d"
      and st1: "st1 = st\<lparr>tensors := (tensors st)
                (t := Some (T\<lparr>data := Some (fst (add_noise F (noise_scale config)
                                      (take (nelements T) d) (seed st)) @ drop (nelements T) d)\<rparr>)),
             seed := snd (add_noise F (noise_scale config) (take (nelements T) d) (seed st))\<rparr>"
      by (auto simp: quant_tensor_def float_type_def split_def Let_def
          split: option.splits if_splits)
    have "length (fst (add_noise F (noise_scale config) (take (nelements T) d) (seed st))
            @ drop (nelements T) d) = length d"
      using T(4) by (simp add: add_noise_length)
    then have len: "length (fst (add_noise F (noise_scale config) (take (nelements T) d) (seed st))
            @ drop (nelements T) d) = length d" .
    have "tensors st1 t' = tensors st t' \<or>
           (\<exists>T d d'. tensors st t' = Some T \<and> float_type (ttype T) \<and> data T = Some d \<and>
                length d' = length d \<and> tensors st1 t' = Some (T\<lparr>data := Some d'\<rparr>))" for t'
    proof (cases "t' = t")
      case True
      have "tensors st t' = Some T \<and> float_type (ttype T) \<and> data T = Some d \<and>
            length (fst (add_noise F (noise_scale config) (take (nelements T) d) (seed st))
                      @ drop (nelements T) d) = length d \<and>
            tensors st1 t' = Some (T\<lparr>data := Some
              (fst (add_noise F (noise_scale config) (take (nelements T) d) (seed st))
                      @ drop (nelements T) d)\<rparr>)"
        using True T len by (simp add: st1)
      then show ?thesis by blast
    next
      case False
      then show ?thesis by (simp add: st1)
    qed
    then show ?thesis
      unfolding qat_frame_def by (simp add: st1)
  qed
qed

lemma quant_objects_frame:
  "quant_objects F config ts st = Some st' \<Longrightarrow> qat_frame config st st'"
proof (induction ts arbitrary: st)
  case Nil
  then show ?case by (simp add: qat_frame_refl)
next
  case (Cons tp ts)
  from Cons.prems obtain s1 where a: "quant_tensor F config tp st = Some s1"
    and b: "quant_objects F config ts s1 = Some st'"
    by (auto split: option.splits)
  from quant_tensor_frame [OF a] Cons.IH [OF b] show ?case by (rule qat_frame_trans)
qed

lemma qat_children_frame:
  assumes "\<And>b s r vis s'. ggml_p9ml_apply_data_free_qat F n (Some b) (Some config) s
               = Some (r, vis, s') \<Longrightarrow> qat_frame config s s'"
  shows "qat_children F n cs config st = Some (vis, st') \<Longrightarrow> qat_frame config st st'"
proof (induction cs arbitrary: st vis)
  case Nil
  then show ?case by (simp add: qat_frame_refl)
next
  case (Cons c cs)
  from Cons.prems obtain r v1 s1 v2 where
    a: "ggml_p9ml_apply_data_free_qat F n c (Some config) st = Some (r, v1, s1)"
    and b: "qat_children F n cs config s1 = Some (v2, st')"
    by (auto split: option.splits)
  have "qat_frame config st s1"
  proof (cases c)
    case None
    with a show ?thesis by (simp add: qat_frame_refl)
  next
    case (Some b)
    with a show ?thesis using assms by simp
  qed
  with Cons.IH [OF b] show ?case by (rule qat_frame_trans [rotated])
qed

lemma apply_frame_Some:
  "ggml_p9ml_apply_data_free_qat F n (Some a) (Some config) st = Some (r, vis, st') \<Longrightarrow>
   qat_frame config st st'"
proof (induction n arbitrary: a st r vis st')
  case 0
  then show ?case by simp
next
  case (Suc n)
  from Suc.prems obtain m where m: "membranes st a = Some m"
    by (auto split: option.splits)
  obtain ok s1 where c: "copy_config a m config st = (ok, s1)" by (cases "copy_config a m config st")
  have f1: "qat_frame config st s1" using m c by (rule copy_config_frame)
  show ?case
  proof (cases ok)
    case False
    with Suc.prems m c have "st' = s1" by simp
    with f1 show ?thesis by simp
  next
    case True
    with Suc.prems m c obtain ts s2 cs v where
      o: "object_slice m = Some ts" "quant_objects F config ts s1 = Some s2"
      and k: "child_slice m = Some cs" "qat_children F n cs config s2 = Some (v, st')"
      by (auto split: option.splits)
    have f2: "qat_frame config s1 s2" using o(2) by (rule quant_objects_frame)
    have f3: "qat_frame config s2 st'" using Suc.IH k(2) by (rule qat_children_frame)
    from f1 f2 have "qat_frame config st s2" by (rule qat_frame_trans)
    from this f3 show ?thesis by (rule qat_frame_trans)
  qed
qed

lemma apply_frame:
  assumes "ggml_p9ml_apply_data_free_qat F n p (Some config) st = Some (r, vis, st')"
  shows "qat_frame config st st'"
proof (cases p)
  case None
  with assms show ?thesis by (simp add: qat_frame_refl)
next
  case (Some a)
  with assms show ?thesis using apply_frame_Some by simp
qed







lemma qat_frame_tensor_ok:
  assumes "qat_frame config st st'" "tensor_ok st tp"
  shows "tensor_ok st' tp"
proof (cases tp)
  case None
  then show ?thesis by (simp add: tensor_ok_def)
next
  case (Some t)
  from qat_frame_tensor [OF assms(1), of t] show ?thesis
  proof
    assume "tensors st' t = tensors st t"
    then show ?thesis using assms(2) Some by (simp add: tensor_ok_def)
  next
    assume "\<exists>T d d'. tensors st t = Some T \<and> float_type (ttype T) \<and> data T = Some d \<and>
        length d' = length d \<and> tensors st' t = Some (T\<lparr>data := Some d'\<rparr>)"
    then obtain T d d' where "tensors st t = Some T" "data T = Some d"
        "length d' = length d" "tensors st' t = Some (T\<lparr>data := Some d'\<rparr>)" by blast
    then show ?thesis using assms(2) Some by (auto simp: tensor_ok_def)
  qed
qed

lemma qat_frame_objects_ok:
  assumes f: "qat_frame config st st'" and m: "membranes st a = Some m"
    and m': "membranes st' a = Some m'" and o: "objects_ok st m"
  shows "objects_ok st' m'"
proof -
  from qat_frame_membrane [OF f, of a] m m'
  have "object_slice m' = object_slice m" by (auto simp: object_slice_def)
  moreover from o obtain ts where ts: "object_slice m = Some ts" "list_all (tensor_ok st) ts"
    by (auto simp: objects_ok_def split: option.splits)
  moreover have "list_all (tensor_ok st') ts"
    using ts(2) qat_frame_tensor_ok [OF f] by (simp add: list_all_iff)
  ultimately show ?thesis by (simp add: objects_ok_def)
qed

lemma qat_frame_tree_inv:
  assumes "qat_frame config st st'" "tree_inv (objects_ok st) st n a"
  shows "tree_inv (objects_ok st') st' n a"
  using qat_frame_links [OF assms(1)] qat_frame_objects_ok [OF assms(1)] assms(2)
  by (rule tree_inv_transfer)

lemma quant_tensor_defined:
  assumes "tensor_ok st tp"
  shows "\<exists>s1. quant_tensor F config tp st = Some s1"
  using assms
  by (auto simp: tensor_ok_def quant_tensor_def split_def Let_def split: option.splits)

lemma quant_objects_defined:
  "list_all (tensor_ok st) ts \<Longrightarrow> \<exists>s'. quant_objects F config ts st = Some s'"
proof (induction ts arbitrary: st)
  case Nil
  then show ?case by simp
next
  case (Cons tp ts)
  from Cons.prems have "tensor_ok st tp" by simp
  from quant_tensor_defined [OF this] obtain s1 where
    s1: "quant_tensor F config tp st = Some s1" by blast
  have "list_all (tensor_ok s1) ts"
    using Cons.prems qat_frame_tensor_ok [OF quant_tensor_frame [OF s1]]
    by (simp add: list_all_iff)
  from Cons.IH [OF this] s1 show ?case by simp
qed

lemma qat_children_defined:
  assumes IH: "\<And>b s. tree_inv (objects_ok s) s n b \<Longrightarrow>
      \<exists>r vis s'. ggml_p9ml_apply_data_free_qat F n (Some b) (Some config) s = Some (r, vis, s')"
  shows "list_all (\<lambda>c. case c of None \<Rightarrow> True | Some b \<Rightarrow> tree_inv (objects_ok st) st n b) cs
         \<Longrightarrow> \<exists>vis st'. qat_children F n cs config st = Some (vis, st')"
proof (induction cs arbitrary: st)
  case Nil
  then show ?case by simp
next
  case (Cons c cs)
  have "\<exists>r v1 s1. ggml_p9ml_apply_data_free_qat F n c (Some config) st = Some (r, v1, s1)"
  proof (cases c)
    case None
    then show ?thesis by simp
  next
    case (Some b)
    with Cons.prems have "tree_inv (objects_ok st) st n b" by simp
    from IH [OF this] Some show ?thesis by simp
  qed
  then obtain r v1 s1 where
    a: "ggml_p9ml_apply_data_free_qat F n c (Some config) st = Some (r, v1, s1)" by blast
  have f: "qat_frame config st s1" using a by (rule apply_frame)
  have "list_all (\<lambda>c. case c of None \<Rightarrow> True | Some b \<Rightarrow> tree_inv (objects_ok s1) s1 n b) cs"
    unfolding list_all_iff
  proof
    fix c' assume "c' \<in> set cs"
    then have "case c' of None \<Rightarrow> True | Some b \<Rightarrow> tree_inv (objects_ok st) st n b"
      using Cons.prems by (simp add: list_all_iff)
    then show "case c' of None \<Rightarrow> True | Some b \<Rightarrow> tree_inv (objects_ok s1) s1 n b"
      using qat_frame_tree_inv [OF f] by (cases c') simp_all
  qed
  from Cons.IH [OF this] a show ?case by auto
qed

lemma apply_defined:
  "tree_inv (objects_ok st) st n a \<Longrightarrow>
   \<exists>r vis st'. ggml_p9ml_apply_data_free_qat F n (Some a) (Some config) st = Some (r, vis, st') \<and>
      (r = 0 \<or> r = - 1) \<and>
      (r = - 1 \<longleftrightarrow> (\<exists>m. membranes st a = Some m \<and> qat_config m = None) \<and>
                    \<not> malloc_ok st (malloc_calls st))"
proof (induction n arbitrary: a st)
  case 0
  then show ?case by simp
next
  case (Suc n)
  from Suc.prems obtain m cs where m: "membranes st a = Some m" "objects_ok st m"
    "child_slice m = Some cs"
    and t: "list_all (\<lambda>c. case c of None \<Rightarrow> True | Some b \<Rightarrow> tree_inv (objects_ok st) st n b) cs"
    by (auto split: option.splits)
  obtain ok s1 where c: "copy_config a m config st = (ok, s1)" by (cases "copy_config a m config st")
  have okiff: "\<not> ok \<longleftrightarrow> qat_config m = None \<and> \<not> malloc_ok st (malloc_calls st)"
    using c by (auto simp: copy_config_def malloc_def Let_def split: if_splits)
  show ?case
  proof (cases ok)
    case False
    with m c okiff show ?thesis by simp
  next
    case True
    have f1: "qat_frame config st s1" using m(1) c by (rule copy_config_frame)
    from m(2) obtain ts where ts: "object_slice m = Some ts" "list_all (tensor_ok st) ts"
      by (auto simp: objects_ok_def split: option.splits)
    have "list_all (tensor_ok s1) ts"
      using ts(2) qat_frame_tensor_ok [OF f1] by (simp add: list_all_iff)
    from quant_objects_defined [OF this] obtain s2 where
      s2: "quant_objects F config ts s1 = Some s2" by blast
    have f2: "qat_frame config st s2"
      using f1 quant_objects_frame [OF s2] by (rule qat_frame_trans)
    have "list_all (\<lambda>c. case c of None \<Rightarrow> True | Some b \<Rightarrow> tree_inv (objects_ok s2) s2 n b) cs"
      unfolding list_all_iff
    proof
      fix c' assume "c' \<in> set cs"
      then have "case c' of None \<Rightarrow> True | Some b \<Rightarrow> tree_inv (objects_ok st) st n b"
        using t by (simp add: list_all_iff)
      then show "case c' of None \<Rightarrow> True | Some b \<Rightarrow> tree_inv (objects_ok s2) s2 n b"
        using qat_frame_tree_inv [OF f2] by (cases c') simp_all
    qed
    with Suc.IH have "\<exists>vis st'. qat_children F n cs config s2 = Some (vis, st')"
      by (intro qat_children_defined) blast
    then obtain v st' where "qat_children F n cs config s2 = Some (v, st')" by blast
    with m c True ts s2 okiff show ?thesis by simp
  qed
qed



section \<open>The depth allowed is no part of the result\<close>

text \<open>
  A traversal that returns within the depth \<open>n\<close> returns the same value and store within
  any greater depth.
\<close>

lemma evolve_children_fuel:
  assumes "\<And>p s x. ggml_p9ml_membrane_evolve n p s = Some x
             \<Longrightarrow> ggml_p9ml_membrane_evolve (Suc n) p s = Some x"
  shows "evolve_children n cs st = Some y \<Longrightarrow> evolve_children (Suc n) cs st = Some y"
proof (induction cs arbitrary: st y)
  case Nil
  then show ?case by simp
next
  case (Cons c cs)
  from Cons.prems obtain r v1 s1 v2 s2 where
    a: "ggml_p9ml_membrane_evolve n c st = Some (r, v1, s1)"
    and b: "evolve_children n cs s1 = Some (v2, s2)" and y: "y = (v1 @ v2, s2)"
    by (auto split: option.splits)
  from assms [OF a] Cons.IH [OF b] y show ?case by simp
qed

lemma evolve_fuel:
  "ggml_p9ml_membrane_evolve n p st = Some x \<Longrightarrow> ggml_p9ml_membrane_evolve (Suc n) p st = Some x"
proof (induction n arbitrary: p st x)
  case 0
  then show ?case by (cases p) simp_all
next
  case (Suc n)
  show ?case
  proof (cases p)
    case None
    with Suc.prems show ?thesis by simp
  next
    case (Some a)
    with Suc.prems obtain m cs v s1 where m: "membranes st a = Some m" "child_slice m = Some cs"
      and k: "evolve_children n cs st = Some (v, s1)" and x: "x = (0, a # v, s1)"
      by (auto split: option.splits)
    from Suc.IH k have "evolve_children (Suc n) cs st = Some (v, s1)"
      by (rule evolve_children_fuel)
    with Some m x show ?thesis by simp
  qed
qed

lemma propagate_children_fuel:
  assumes "\<And>p s x. ggml_p9ml_propagate_namespace n p nsp s = Some x
             \<Longrightarrow> ggml_p9ml_propagate_namespace (Suc n) p nsp s = Some x"
  shows "propagate_children n cs nsp st = Some y \<Longrightarrow> propagate_children (Suc n) cs nsp st = Some y"
proof (induction cs arbitrary: st y)
  case Nil
  then show ?case by simp
next
  case (Cons c cs)
  show ?case
  proof (cases c)
    case None
    with Cons show ?thesis by simp
  next
    case (Some b)
    with Cons.prems obtain s1 where
      a: "ggml_p9ml_propagate_namespace n (Some b) nsp st = Some s1"
      and b: "propagate_children n cs nsp s1 = Some y"
      by (auto split: option.splits)
    from assms [OF a] Cons.IH [OF b] Some show ?thesis by simp
  qed
qed

lemma propagate_fuel:
  "ggml_p9ml_propagate_namespace n p nsp st = Some x \<Longrightarrow>
   ggml_p9ml_propagate_namespace (Suc n) p nsp st = Some x"
proof (induction n arbitrary: p st x)
  case 0
  then show ?case by (cases p; cases nsp) simp_all
next
  case (Suc n)
  show ?case
  proof (cases p)
    case None
    with Suc.prems show ?thesis by simp
  next
    case (Some a)
    show ?thesis
    proof (cases nsp)
      case None
      with Suc.prems Some show ?thesis by simp
    next
      case (Some k)
      with Suc.prems \<open>p = Some a\<close> obtain m cs where
        m: "membranes st a = Some m" "child_slice m = Some cs"
        and c: "propagate_children n cs (Some k) (put_membrane a (m\<lparr>ns := Some k\<rparr>) st) = Some x"
        by (auto split: option.splits)
      from Suc.IH [unfolded Some] c
      have "propagate_children (Suc n) cs (Some k) (put_membrane a (m\<lparr>ns := Some k\<rparr>) st) = Some x"
        by (rule propagate_children_fuel)
      with Some \<open>p = Some a\<close> m show ?thesis by simp
    qed
  qed
qed

lemma qat_children_fuel:
  assumes "\<And>p s x. ggml_p9ml_apply_data_free_qat F n p (Some config) s = Some x
             \<Longrightarrow> ggml_p9ml_apply_data_free_qat F (Suc n) p (Some config) s = Some x"
  shows "qat_children F n cs config st = Some y \<Longrightarrow> qat_children F (Suc n) cs config st = Some y"
proof (induction cs arbitrary: st y)
  case Nil
  then show ?case by simp
next
  case (Cons c cs)
  from Cons.prems obtain r v1 s1 v2 s2 where
    a: "ggml_p9ml_apply_data_free_qat F n c (Some config) st = Some (r, v1, s1)"
    and b: "qat_children F n cs config s1 = Some (v2, s2)" and y: "y = (v1 @ v2, s2)"
    by (auto split: option.splits)
  from assms [OF a] Cons.IH [OF b] y show ?case by simp
qed

lemma apply_fuel:
  "ggml_p9ml_apply_data_free_qat F n p cp st = Some x \<Longrightarrow>
   ggml_p9ml_apply_data_free_qat F (Suc n) p cp st = Some x"
proof (induction n arbitrary: p st x)
  case 0
  then show ?case by (cases p; cases cp) simp_all
next
  case (Suc n)
  show ?case
  proof (cases p)
    case None
    with Suc.prems show ?thesis by simp
  next
    case (Some a)
    show ?thesis
    proof (cases cp)
      case None
      with Suc.prems Some show ?thesis by simp
    next
      case (Some config)
      from Suc.prems \<open>p = Some a\<close> Some obtain m where m: "membranes st a = Some m"
        by (auto split: option.splits)
      obtain ok s1 where c: "copy_config a m config st = (ok, s1)"
        by (cases "copy_config a m config st")
      show ?thesis
      proof (cases ok)
        case False
        with Suc.prems \<open>p = Some a\<close> Some m c show ?thesis by simp
      next
        case True
        with Suc.prems \<open>p = Some a\<close> Some m c obtain ts s2 cs v s3 where
          o: "object_slice m = Some ts" "quant_objects F config ts s1 = Some s2"
          and k: "child_slice m = Some cs" "qat_children F n cs config s2 = Some (v, s3)"
          and x: "x = (0, a # v, s3)"
          by (auto split: option.splits)
        from Suc.IH [unfolded Some] k(2)
        have "qat_children F (Suc n) cs config s2 = Some (v, s3)"
          by (rule qat_children_fuel)
        with Some \<open>p = Some a\<close> m c True o k(1) x show ?thesis by simp
      qed
    qed
  qed
qed

section \<open>Which membranes each pass acts on\<close>

text \<open>
  \<^verbatim>\<open>ggml_p9ml_forward_tiled_qat\<close> and \<^verbatim>\<open>ggml_p9ml_mixed_precision_quantize\<close> change
  nothing and act on no membrane but the one they are called on.
\<close>

lemma tile_objects_state: "tile_objects tsz ts st = Some st' \<Longrightarrow> st' = st"
proof (induction ts arbitrary: st)
  case Nil
  then show ?case by simp
next
  case (Cons tp ts)
  from Cons.prems obtain s1 where a: "tile_tensor tsz tp st = Some s1"
    and b: "tile_objects tsz ts s1 = Some st'"
    by (auto split: option.splits)
  from a have "s1 = st" by (auto simp: tile_tensor_def split: option.splits if_splits)
  with Cons.IH [OF b] show ?case by simp
qed

lemma analyze_objects_state: "analyze_objects ts st = Some st' \<Longrightarrow> st' = st"
proof (induction ts arbitrary: st)
  case Nil
  then show ?case by simp
next
  case (Cons tp ts)
  from Cons.prems obtain s1 where a: "analyze_tensor tp st = Some s1"
    and b: "analyze_objects ts s1 = Some st'"
    by (auto split: option.splits)
  from a have "s1 = st" by (auto simp: analyze_tensor_def split: option.splits if_splits)
  with Cons.IH [OF b] show ?case by simp
qed

lemma forward_tiled_root_only:
  assumes "ggml_p9ml_forward_tiled_qat mp cp reference st = Some (r, vis, st')"
  shows "st' = st \<and> (r = - 1 \<and> vis = [] \<or> r = 0 \<and> (\<exists>a. mp = Some a \<and> vis = [a]))"
proof (cases mp)
  case None
  with assms show ?thesis by (simp add: ggml_p9ml_forward_tiled_qat_def)
next
  case (Some a)
  show ?thesis
  proof (cases cp)
    case None
    with assms Some show ?thesis by (simp add: ggml_p9ml_forward_tiled_qat_def)
  next
    case (Some config)
    with assms \<open>mp = Some a\<close> obtain m ts where
      "tile_objects (tile_size config) ts st = Some st'" "r = 0" "vis = [a]"
      by (auto simp: ggml_p9ml_forward_tiled_qat_def split: option.splits)
    with tile_objects_state \<open>mp = Some a\<close> show ?thesis by blast
  qed
qed

lemma mixed_precision_root_only:
  assumes "ggml_p9ml_mixed_precision_quantize mp q st = Some (r, vis, st')"
  shows "st' = st \<and> (r = - 1 \<and> vis = [] \<or> r = 0 \<and> (\<exists>a. mp = Some a \<and> vis = [a]))"
proof (cases mp)
  case None
  with assms show ?thesis by (simp add: ggml_p9ml_mixed_precision_quantize_def)
next
  case (Some a)
  with assms obtain m ts where
    "analyze_objects ts st = Some st'" "r = 0" "vis = [a]"
    by (auto simp: ggml_p9ml_mixed_precision_quantize_def split: option.splits)
  with analyze_objects_state Some show ?thesis by blast
qed

lemma preorder_links:
  assumes "same_links st st'"
  shows "preorder st n a = preorder st' n a"
proof (induction n arbitrary: a)
  case 0
  show ?case by simp
next
  case (Suc n)
  have e: "map_option child_slice (membranes st a) = map_option child_slice (membranes st' a)"
    using assms by (simp add: same_links_def)
  show ?case
  proof (cases "membranes st a")
    case None
    with e have "membranes st' a = None" by simp
    with None show ?thesis by simp
  next
    case (Some m)
    with e obtain m' where m': "membranes st' a = Some m'" "child_slice m' = child_slice m"
      by (cases "membranes st' a") auto
    have "preorder st n = preorder st' n" by (rule ext) (rule Suc.IH)
    with Some m' show ?thesis by simp
  qed
qed

lemma preorder_mono: "tree_inv P st n a \<Longrightarrow> preorder st (Suc n) a = preorder st n a"
proof (induction n arbitrary: a)
  case 0
  then show ?case by simp
next
  case (Suc n)
  from Suc.prems obtain m cs where m: "membranes st a = Some m" "child_slice m = Some cs"
    "list_all (\<lambda>c. case c of None \<Rightarrow> True | Some b \<Rightarrow> tree_inv P st n b) cs"
    by (auto split: option.splits)
  have e: "map (case_option [] (preorder st (Suc n))) cs = map (case_option [] (preorder st n)) cs"
  proof (rule map_cong [OF refl])
    fix c assume "c \<in> set cs"
    then have "case c of None \<Rightarrow> True | Some b \<Rightarrow> tree_inv P st n b"
      using m(3) by (simp add: list_all_iff)
    then show "case_option [] (preorder st (Suc n)) c = case_option [] (preorder st n) c"
      using Suc.IH by (cases c) (simp_all del: preorder.simps)
  qed
  have "preorder st (Suc (Suc n)) a
      = a # concat (map (case_option [] (preorder st (Suc n))) cs)"
    using m(1,2) by (simp del: preorder.simps add: preorder.simps(2) [of st "Suc n"])
  moreover have "preorder st (Suc n) a = a # concat (map (case_option [] (preorder st n)) cs)"
    using m(1,2) by (simp del: preorder.simps add: preorder.simps(2) [of st n])
  ultimately show ?case by (simp only: e)
qed

text \<open>
  When no allocation fails, \<^verbatim>\<open>ggml_p9ml_apply_data_free_qat\<close> acts on the membranes of a
  well-formed structure in preorder, as \<^verbatim>\<open>ggml_p9ml_membrane_evolve\<close> does
  (\<open>evolve_preorder\<close>).
\<close>

lemma qat_frame_malloc_ok: "qat_frame config st st' \<Longrightarrow> malloc_ok st' = malloc_ok st"
  by (simp add: qat_frame_def)

lemma qat_children_preorder_from:
  assumes IH: "\<And>b s. \<forall>k\<ge>malloc_calls s. malloc_ok s k \<Longrightarrow> tree_inv (objects_ok s) s n b \<Longrightarrow>
      \<exists>s'. ggml_p9ml_apply_data_free_qat F n (Some b) (Some config) s
             = Some (0, preorder s n b, s')"
  shows "\<forall>k\<ge>malloc_calls st. malloc_ok st k \<Longrightarrow>
         list_all (\<lambda>c. case c of None \<Rightarrow> True | Some b \<Rightarrow> tree_inv (objects_ok st) st n b) cs
         \<Longrightarrow> \<exists>st'. qat_children F n cs config st
                  = Some (concat (map (case_option [] (preorder st n)) cs), st')"
proof (induction cs arbitrary: st)
  case Nil
  then show ?case by simp
next
  case (Cons c cs)
  have "\<exists>r s1. ggml_p9ml_apply_data_free_qat F n c (Some config) st
                 = Some (r, case_option [] (preorder st n) c, s1)"
  proof (cases c)
    case None
    then show ?thesis by simp
  next
    case (Some b)
    with Cons.prems have "tree_inv (objects_ok st) st n b" by simp
    from IH [OF Cons.prems(1) this] Some show ?thesis by auto
  qed
  then obtain r s1 where
    a: "ggml_p9ml_apply_data_free_qat F n c (Some config) st
          = Some (r, case_option [] (preorder st n) c, s1)" by blast
  have f: "qat_frame config st s1" using a by (rule apply_frame)
  have "malloc_calls st \<le> malloc_calls s1" using f by (simp add: qat_frame_def)
  then have ok: "\<forall>k\<ge>malloc_calls s1. malloc_ok s1 k"
    using Cons.prems(1) qat_frame_malloc_ok [OF f] by simp
  have "list_all (\<lambda>c. case c of None \<Rightarrow> True | Some b \<Rightarrow> tree_inv (objects_ok s1) s1 n b) cs"
    unfolding list_all_iff
  proof
    fix c' assume "c' \<in> set cs"
    then have "case c' of None \<Rightarrow> True | Some b \<Rightarrow> tree_inv (objects_ok st) st n b"
      using Cons.prems(2) by (simp add: list_all_iff)
    then show "case c' of None \<Rightarrow> True | Some b \<Rightarrow> tree_inv (objects_ok s1) s1 n b"
      using qat_frame_tree_inv [OF f] by (cases c') simp_all
  qed
  from Cons.IH [OF ok this] obtain st' where
    b: "qat_children F n cs config s1
          = Some (concat (map (case_option [] (preorder s1 n)) cs), st')" by blast
  have "preorder s1 n = preorder st n"
    by (rule ext) (rule preorder_links [OF qat_frame_links [OF f], symmetric])
  with a b show ?case by simp
qed

lemma apply_preorder_from:
  "\<forall>k\<ge>malloc_calls st. malloc_ok st k \<Longrightarrow> tree_inv (objects_ok st) st n a \<Longrightarrow>
   \<exists>st'. ggml_p9ml_apply_data_free_qat F n (Some a) (Some config) st
           = Some (0, preorder st n a, st')"
proof (induction n arbitrary: a st)
  case 0
  then show ?case by simp
next
  case (Suc n)
  from Suc.prems(2) obtain m cs where m: "membranes st a = Some m" "objects_ok st m"
    "child_slice m = Some cs"
    and t: "list_all (\<lambda>c. case c of None \<Rightarrow> True | Some b \<Rightarrow> tree_inv (objects_ok st) st n b) cs"
    by (auto split: option.splits)
  obtain ok s1 where c: "copy_config a m config st = (ok, s1)" by (cases "copy_config a m config st")
  have ok: "ok"
    using c Suc.prems(1) by (auto simp: copy_config_def malloc_def Let_def split: if_splits)
  have f1: "qat_frame config st s1" using m(1) c by (rule copy_config_frame)
  from m(2) obtain ts where ts: "object_slice m = Some ts" "list_all (tensor_ok st) ts"
    by (auto simp: objects_ok_def split: option.splits)
  have "list_all (tensor_ok s1) ts"
    using ts(2) qat_frame_tensor_ok [OF f1] by (simp add: list_all_iff)
  from quant_objects_defined [OF this] obtain s2 where
    s2: "quant_objects F config ts s1 = Some s2" by blast
  have f2: "qat_frame config st s2"
    using f1 quant_objects_frame [OF s2] by (rule qat_frame_trans)
  have "malloc_calls st \<le> malloc_calls s2" using f2 by (simp add: qat_frame_def)
  then have ok2: "\<forall>k\<ge>malloc_calls s2. malloc_ok s2 k"
    using Suc.prems(1) qat_frame_malloc_ok [OF f2] by simp
  have "list_all (\<lambda>c. case c of None \<Rightarrow> True | Some b \<Rightarrow> tree_inv (objects_ok s2) s2 n b) cs"
    unfolding list_all_iff
  proof
    fix c' assume "c' \<in> set cs"
    then have "case c' of None \<Rightarrow> True | Some b \<Rightarrow> tree_inv (objects_ok st) st n b"
      using t by (simp add: list_all_iff)
    then show "case c' of None \<Rightarrow> True | Some b \<Rightarrow> tree_inv (objects_ok s2) s2 n b"
      using qat_frame_tree_inv [OF f2] by (cases c') simp_all
  qed
  from qat_children_preorder_from [where F = F and config = config, OF Suc.IH ok2 this]
  obtain st' where
    k: "qat_children F n cs config s2
          = Some (concat (map (case_option [] (preorder s2 n)) cs), st')" by blast
  have "preorder s2 n = preorder st n"
    by (rule ext) (rule preorder_links [OF qat_frame_links [OF f2], symmetric])
  with m c ok ts s2 k show ?case by simp
qed

lemma apply_preorder:
  "\<forall>k. malloc_ok st k \<Longrightarrow> tree_inv (objects_ok st) st n a \<Longrightarrow>
   \<exists>st'. ggml_p9ml_apply_data_free_qat F n (Some a) (Some config) st
           = Some (0, preorder st n a, st')"
  by (rule apply_preorder_from) simp_all


section \<open>The noise\<close>

text \<open>
  With arithmetic that rounds, the noise is at most the scale in absolute value, and a
  float to which it is added ends between the float minus the scale and the float plus
  the scale, both as the unit computes them; with the scale 0 its value stays.
\<close>

lemma generate_noise_within_scale:
  assumes R: "fpu_rounds F val rnd"
  shows "\<bar>val (fst (ggml_p9ml_generate_noise F scale sd))\<bar> \<le> \<bar>val scale\<bar>"
proof -
  from R have mono: "\<And>x y. x \<le> y \<Longrightarrow> rnd x \<le> rnd y"
    and odd: "\<And>x. rnd (- x) = - rnd x"
    and idem: "\<And>a. rnd (val a) = val a"
    and half: "val F32_0_5 = 1 / 2" and one: "val F32_1_0 = 1" and two: "val F32_2_0 = 2"
    and conv: "\<And>w. val (f32_of_u32 F w) = rnd (real (unat w))"
    and sub: "\<And>a b. val (f32_sub F a b) = rnd (val a - val b)"
    and mul: "\<And>a b. val (f32_mul F a b) = rnd (val a * val b)"
    and dvd: "\<And>a b. val b \<noteq> 0 \<Longrightarrow> val (f32_div F a b) = rnd (val a / val b)"
    unfolding fpu_rounds_def by blast+
  have r0: "rnd 0 = 0" using odd [of 0] by simp
  have r1: "rnd 1 = 1" using idem [of F32_1_0] one by simp
  have r2: "rnd 2 = 2" using idem [of F32_2_0] two by simp
  have rh: "rnd (1 / 2) = 1 / 2" using idem [of F32_0_5] half by simp
  have rs: "rnd \<bar>val scale\<bar> = \<bar>val scale\<bar>"
    using idem [of scale] odd [of "val scale"] by (cases "0 \<le> val scale") simp_all
  define w where "w = lcg_step sd AND 0x7FFFFFFF"
  define A where "A = f32_of_u32 F w"
  define B where "B = f32_of_u32 F 0x7FFFFFFF"
  define N where "N = f32_div F A B"
  define t where "t = f32_sub F N F32_0_5"
  define v where "v = f32_mul F t F32_2_0"
  define z where "z = f32_mul F v scale"
  have z: "fst (ggml_p9ml_generate_noise F scale sd) = z"
    by (simp add: ggml_p9ml_generate_noise_def Let_def z_def v_def t_def N_def A_def B_def w_def)
  have "w \<le> 0x7FFFFFFF" unfolding w_def by (rule word_and_le1)
  then have "unat w \<le> unat (0x7FFFFFFF :: 32 word)" by (simp add: word_le_nat_alt)
  then have uw: "real (unat w) \<le> real (unat (0x7FFFFFFF :: 32 word))"
    by (simp only: of_nat_le_iff)
  have "(0::real) \<le> real (unat w)" by (rule of_nat_0_le_iff)
  from mono [OF this] have A0: "0 \<le> val A" by (simp only: A_def conv r0)
  have AB: "val A \<le> val B" using mono [OF uw] by (simp only: A_def B_def conv)
  have "(2::real) \<le> real (unat (0x7FFFFFFF :: 32 word))" by simp
  from mono [OF this] have B2: "2 \<le> val B" by (simp only: B_def conv r2)
  then have Bn: "val B \<noteq> 0" and Bp: "0 < val B" by simp_all
  have q: "0 \<le> val A / val B" "val A / val B \<le> 1"
    using A0 AB Bp by simp_all
  have N: "0 \<le> val N" "val N \<le> 1"
    using mono [OF q(1)] mono [OF q(2)] r0 r1 by (simp_all add: N_def dvd [OF Bn])
  have "- (1 / 2) \<le> val N - 1 / 2" "val N - 1 / 2 \<le> 1 / 2" using N by simp_all
  from mono [OF this(1)] mono [OF this(2)]
  have t: "- (1 / 2) \<le> val t" "val t \<le> 1 / 2"
    by (simp_all add: t_def sub half odd rh)
  have "- 1 \<le> val t * 2" "val t * 2 \<le> 1" using t by simp_all
  from mono [OF this(1)] mono [OF this(2)]
  have v: "- 1 \<le> val v" "val v \<le> 1"
    by (simp_all add: v_def mul two odd r1)
  then have "\<bar>val v\<bar> \<le> 1" by simp
  then have "\<bar>val v * val scale\<bar> \<le> \<bar>val scale\<bar>"
    by (simp add: abs_mult mult_left_le_one_le)
  then have "- \<bar>val scale\<bar> \<le> val v * val scale" "val v * val scale \<le> \<bar>val scale\<bar>"
    by simp_all
  from mono [OF this(1)] mono [OF this(2)]
  have "- \<bar>val scale\<bar> \<le> val z" "val z \<le> \<bar>val scale\<bar>"
    by (simp_all add: z_def mul odd rs)
  then show ?thesis unfolding z by simp
qed

lemma perturbation_between:
  assumes R: "fpu_rounds F val rnd" and s: "0 \<le> val scale" and z: "\<bar>val z\<bar> \<le> val scale"
  shows "val (f32_sub F x scale) \<le> val (f32_add F x z)"
    and "val (f32_add F x z) \<le> val (f32_add F x scale)"
    and "val scale = 0 \<Longrightarrow> val (f32_add F x z) = val x"
proof -
  from R have mono: "\<And>x y. x \<le> y \<Longrightarrow> rnd x \<le> rnd y"
    and idem: "\<And>a. rnd (val a) = val a"
    and add: "\<And>a b. val (f32_add F a b) = rnd (val a + val b)"
    and sub: "\<And>a b. val (f32_sub F a b) = rnd (val a - val b)"
    unfolding fpu_rounds_def by blast+
  have "val x - val scale \<le> val x + val z" "val x + val z \<le> val x + val scale"
    using z by simp_all
  from mono [OF this(1)] mono [OF this(2)]
  show "val (f32_sub F x scale) \<le> val (f32_add F x z)"
    and "val (f32_add F x z) \<le> val (f32_add F x scale)"
    by (simp_all add: add sub)
  assume "val scale = 0"
  with z have "val z = 0" by simp
  then show "val (f32_add F x z) = val x" by (simp add: add idem)
qed

text \<open>
  One run of the noise loop over an F32 or F16 tensor with enough floats: every one of the
  first \<^verbatim>\<open>ggml_nelements\<close> floats is added one noise value, drawn at its own seed; the
  other floats stay.
\<close>

lemma quant_tensor_noise:
  assumes "tensors st t = Some T" "float_type (ttype T)" "data T = Some d"
    "nelements T \<le> length d"
  shows "\<exists>d1. quant_tensor F config (Some t) st
            = Some (st\<lparr>tensors := (tensors st)(t := Some (T\<lparr>data := Some d1\<rparr>)),
                       seed := (lcg_step ^^ nelements T) (seed st)\<rparr>) \<and>
           length d1 = length d \<and>
           (\<forall>j<nelements T. d1 ! j = f32_add F (d ! j)
               (fst (ggml_p9ml_generate_noise F (noise_scale config) ((lcg_step ^^ j) (seed st))))) \<and>
           (\<forall>j. nelements T \<le> j \<and> j < length d \<longrightarrow> d1 ! j = d ! j)"
proof -
  let ?n = "nelements T"
  let ?ys = "fst (add_noise F (noise_scale config) (take ?n d) (seed st))"
  let ?d1 = "?ys @ drop ?n d"
  have len: "length ?ys = ?n" using assms(4) by (simp add: add_noise_length)
  have sd: "snd (add_noise F (noise_scale config) (take ?n d) (seed st))
              = (lcg_step ^^ ?n) (seed st)"
    using assms(4) by (simp add: add_noise_seed)
  have "quant_tensor F config (Some t) st
          = Some (st\<lparr>tensors := (tensors st)(t := Some (T\<lparr>data := Some ?d1\<rparr>)),
                     seed := (lcg_step ^^ ?n) (seed st)\<rparr>)"
    using assms sd by (auto simp: quant_tensor_def float_type_def split_def Let_def)
  moreover have "length ?d1 = length d" using len assms(4) by simp
  moreover have "?d1 ! j = f32_add F (d ! j)
               (fst (ggml_p9ml_generate_noise F (noise_scale config) ((lcg_step ^^ j) (seed st))))"
    if "j < ?n" for j
  proof -
    from that assms(4) have "j < length (take ?n d)" by simp
    from add_noise_nth [OF this, of F "noise_scale config" "seed st"] that len
    show ?thesis by (simp add: nth_append)
  qed
  moreover have "?d1 ! j = d ! j" if "?n \<le> j \<and> j < length d" for j
    using that len by (simp add: nth_append)
  ultimately show ?thesis by blast
qed

text \<open>With the scale 0 the pass keeps the value of every float of every tensor.\<close>

lemma same_values_refl: "same_values val st st"
  by (simp add: same_values_def)

lemma same_values_trans:
  "same_values val st st1 \<Longrightarrow> same_values val st1 st2 \<Longrightarrow> same_values val st st2"
  by (simp add: same_values_def)

lemma add_noise_values:
  assumes R: "fpu_rounds F val rnd" and s: "val s = 0"
  shows "map val (fst (add_noise F s xs sd)) = map val xs"
proof (induction xs arbitrary: sd)
  case Nil
  show ?case by simp
next
  case (Cons x xs)
  let ?z = "fst (ggml_p9ml_generate_noise F s sd)"
  from generate_noise_within_scale [OF R, of s sd] s have z: "\<bar>val ?z\<bar> \<le> val s" by simp
  from s have "0 \<le> val s" by simp
  from perturbation_between(3) [OF R this z s] have "val (f32_add F x ?z) = val x" .
  with Cons.IH show ?case by (simp add: split_def Let_def)
qed

lemma quant_tensor_same_values:
  assumes R: "fpu_rounds F val rnd" and s: "val (noise_scale config) = 0"
    and q: "quant_tensor F config tp st = Some st1"
  shows "same_values val st st1"
proof (cases "st1 = st")
  case True
  then show ?thesis by (simp add: same_values_refl)
next
  case False
  with q obtain t T d where T: "tensors st t = Some T" "data T = Some d" "nelements T \<le> length d"
    and st1: "st1 = st\<lparr>tensors := (tensors st)
              (t := Some (T\<lparr>data := Some (fst (add_noise F (noise_scale config)
                                    (take (nelements T) d) (seed st)) @ drop (nelements T) d)\<rparr>)),
           seed := snd (add_noise F (noise_scale config) (take (nelements T) d) (seed st))\<rparr>"
    by (auto simp: quant_tensor_def split_def Let_def split: option.splits if_splits)
  have "map val (fst (add_noise F (noise_scale config) (take (nelements T) d) (seed st))
          @ drop (nelements T) d) = map val (take (nelements T) d) @ map val (drop (nelements T) d)"
    using add_noise_values [OF R s] by simp
  also have "\<dots> = map val (take (nelements T) d @ drop (nelements T) d)"
    by (simp only: map_append)
  also have "\<dots> = map val d" by (simp only: append_take_drop_id)
  finally have "map val (fst (add_noise F (noise_scale config) (take (nelements T) d) (seed st))
          @ drop (nelements T) d) = map val d" .
  then show ?thesis using T(1,2) unfolding same_values_def st1 by simp
qed

lemma quant_objects_same_values:
  assumes R: "fpu_rounds F val rnd" and s: "val (noise_scale config) = 0"
  shows "quant_objects F config ts st = Some st' \<Longrightarrow> same_values val st st'"
proof (induction ts arbitrary: st)
  case Nil
  then show ?case by (simp add: same_values_refl)
next
  case (Cons tp ts)
  from Cons.prems obtain s1 where a: "quant_tensor F config tp st = Some s1"
    and b: "quant_objects F config ts s1 = Some st'"
    by (auto split: option.splits)
  from quant_tensor_same_values [OF R s a] Cons.IH [OF b] show ?case
    by (rule same_values_trans)
qed

lemma qat_children_same_values:
  assumes "\<And>b s r vis s'. ggml_p9ml_apply_data_free_qat F n (Some b) (Some config) s
               = Some (r, vis, s') \<Longrightarrow> same_values val s s'"
  shows "qat_children F n cs config st = Some (vis, st') \<Longrightarrow> same_values val st st'"
proof (induction cs arbitrary: st vis)
  case Nil
  then show ?case by (simp add: same_values_refl)
next
  case (Cons c cs)
  from Cons.prems obtain r v1 s1 v2 where
    a: "ggml_p9ml_apply_data_free_qat F n c (Some config) st = Some (r, v1, s1)"
    and b: "qat_children F n cs config s1 = Some (v2, st')"
    by (auto split: option.splits)
  have "same_values val st s1"
  proof (cases c)
    case None
    with a show ?thesis by (simp add: same_values_refl)
  next
    case (Some b)
    with a show ?thesis using assms by simp
  qed
  with Cons.IH [OF b] show ?case by (rule same_values_trans [rotated])
qed

lemma copy_config_tensors: "copy_config a m config st = (ok, s1) \<Longrightarrow> tensors s1 = tensors st"
  by (auto simp: copy_config_def malloc_def put_membrane_def Let_def split: if_splits)

lemma apply_same_values_Some:
  assumes R: "fpu_rounds F val rnd" and s: "val (noise_scale config) = 0"
  shows "ggml_p9ml_apply_data_free_qat F n (Some a) (Some config) st = Some (r, vis, st') \<Longrightarrow>
         same_values val st st'"
proof (induction n arbitrary: a st r vis st')
  case 0
  then show ?case by simp
next
  case (Suc n)
  from Suc.prems obtain m where m: "membranes st a = Some m"
    by (auto split: option.splits)
  obtain ok s1 where c: "copy_config a m config st = (ok, s1)" by (cases "copy_config a m config st")
  have f1: "same_values val st s1" using copy_config_tensors [OF c] by (simp add: same_values_def)
  show ?case
  proof (cases ok)
    case False
    with Suc.prems m c have "st' = s1" by simp
    with f1 show ?thesis by simp
  next
    case True
    with Suc.prems m c obtain ts s2 cs v where
      o: "object_slice m = Some ts" "quant_objects F config ts s1 = Some s2"
      and k: "child_slice m = Some cs" "qat_children F n cs config s2 = Some (v, st')"
      by (auto split: option.splits)
    have f2: "same_values val s1 s2" using R s o(2) by (rule quant_objects_same_values)
    have f3: "same_values val s2 st'" using Suc.IH k(2) by (rule qat_children_same_values)
    from f1 f2 have "same_values val st s2" by (rule same_values_trans)
    from this f3 show ?thesis by (rule same_values_trans)
  qed
qed

lemma apply_same_values:
  assumes "fpu_rounds F val rnd" "val (noise_scale config) = 0"
    "ggml_p9ml_apply_data_free_qat F n p (Some config) st = Some (r, vis, st')"
  shows "same_values val st st'"
proof (cases p)
  case None
  with assms(3) show ?thesis by (simp add: same_values_refl)
next
  case (Some a)
  with assms show ?thesis using apply_same_values_Some by simp
qed

text \<open>The unit with seven values rounds.\<close>

lemma small_rnd_mono: "x \<le> y \<Longrightarrow> small_rnd x \<le> small_rnd y"
  by (simp add: small_rnd_def)

lemma small_rnd_odd: "small_rnd (- x) = - small_rnd x"
  by (simp add: small_rnd_def)

lemma small_rnd_val: "small_rnd (small_val a) = small_val a"
  by (simp add: small_rnd_def small_val_def)

lemma small_val_enc: "small_val (small_enc (small_rnd x)) = small_rnd x"
  by (simp add: small_rnd_def small_val_def small_enc_def F32_0_5_def F32_1_0_def F32_2_0_def)

lemma small_val_literals:
  "small_val F32_0_5 = 1 / 2" "small_val F32_1_0 = 1" "small_val F32_2_0 = 2"
  by (simp_all add: small_val_def F32_0_5_def F32_1_0_def F32_2_0_def)

lemma small_fpu_rounds: "fpu_rounds small_fpu small_val small_rnd"
  unfolding fpu_rounds_def
  by (simp add: small_rnd_mono small_rnd_odd small_rnd_val small_val_literals small_val_enc
      small_fpu_def)

section \<open>Float loops that leave the data\<close>

text \<open>
  When no allocation fails, a pass over a structure in which some reachable membrane
  holds a tensor with fewer floats than elements does not stay inside that tensor's data.
  An F16 tensor in its own storage is such a tensor.
\<close>

lemma f16_own_storage_overrun: "f16_own_storage st t \<Longrightarrow> overrun st t"
  by (auto simp: f16_own_storage_def overrun_def float_type_def split: option.splits)

lemma quant_tensor_overrun: "overrun st t \<Longrightarrow> quant_tensor F config (Some t) st = None"
  by (auto simp: overrun_def quant_tensor_def float_type_def split: option.splits)







section \<open>The passes on an example tree\<close>

lemma tree_store_membranes:
  "membranes tree_store (Suc 0) = Some (example_membrane [Some 2, Some 3] 2 [] 0)"
  "membranes tree_store 2 = Some ((example_membrane [] 0 [Some 10, Some 11] 2)\<lparr>ns := Some 5\<rparr>)"
  "membranes tree_store 3 = Some (example_membrane [] 0 [] 0)"
  by (simp_all add: tree_store_def example_store_def tree_membranes_def)

lemma tree_store_slices:
  "child_slice (example_membrane [Some 2, Some 3] 2 [] 0) = Some [Some 2, Some 3]"
  "child_slice ((example_membrane [] 0 [Some 10, Some 11] 2)\<lparr>ns := Some 5\<rparr>) = Some []"
  "child_slice (example_membrane [] 0 [] 0) = Some []"
  "object_slice (example_membrane [Some 2, Some 3] 2 [] 0) = Some []"
  "object_slice ((example_membrane [] 0 [Some 10, Some 11] 2)\<lparr>ns := Some 5\<rparr>)
     = Some [Some 10, Some 11]"
  "object_slice (example_membrane [] 0 [] 0) = Some []"
  by (simp_all add: child_slice_def object_slice_def array_slice_def example_membrane_def)

lemma tree_store_tree: "tree_inv any_membrane tree_store (Suc (Suc 0)) 1"
  by (simp add: tree_store_membranes tree_store_slices)

lemma tree_store_tensors:
  "tensors tree_store 10 = Some \<lparr>ttype = GGML_TYPE_F32, nelements = 2, data = Some [F32_1_0, F32_2_0]\<rparr>"
  "tensors tree_store 11 = Some \<lparr>ttype = GGML_TYPE_QUANT 4, nelements = 2, data = Some [17, 34]\<rparr>"
  by (simp_all add: tree_store_def example_store_def tree_tensors_def)

lemma tree_store_qat_tree: "tree_inv (objects_ok tree_store) tree_store (Suc (Suc 0)) 1"
  by (simp add: tree_store_membranes tree_store_slices objects_ok_def tensor_ok_def
      tree_store_tensors)

lemma tree_store_preorder: "preorder tree_store (Suc (Suc 0)) 1 = [1, 2, 3]"
  by (simp add: tree_store_membranes tree_store_slices)

lemma nomem_store_membranes:
  "membranes nomem_store (Suc 0) = Some (example_membrane [Some 2, Some 3] 2 [] 0)"
  by (simp_all add: nomem_store_def example_store_def tree_membranes_def)

text \<open>
  C8 as stated fails: with both arguments present, a root without stored configuration
  and a failing allocation of its copy, \<^verbatim>\<open>ggml_p9ml_apply_data_free_qat\<close> returns -1.
\<close>

theorem qat_allocation_failure:
  "membranes nomem_store 1 \<noteq> None \<and>
   ggml_p9ml_apply_data_free_qat example_fpu (Suc (Suc 0)) (Some 1) (Some (example_config F32_0_1))
     nomem_store = Some (- 1, [], nomem_store\<lparr>malloc_calls := 1\<rparr>)"
  by (simp add: nomem_store_membranes copy_config_def malloc_def example_membrane_def)
     (simp add: nomem_store_def example_store_def)

text \<open>
  C1. On the tree with root 1 and children 2 and 3, \<^verbatim>\<open>ggml_p9ml_membrane_evolve\<close> acts on
  1, 2, 3 in this order, the preorder of the tree, while
  \<^verbatim>\<open>ggml_p9ml_forward_tiled_qat\<close> and \<^verbatim>\<open>ggml_p9ml_mixed_precision_quantize\<close> return success
  after acting on the root alone.
\<close>

theorem tiled_and_mixed_stay_at_root:
  "preorder tree_store (Suc (Suc 0)) 1 = [1, 2, 3] \<and>
   ggml_p9ml_membrane_evolve (Suc (Suc 0)) (Some 1) tree_store = Some (0, [1, 2, 3], tree_store) \<and>
   ggml_p9ml_forward_tiled_qat (Some 1) (Some (example_config F32_0_1)) None tree_store
     = Some (0, [1], tree_store) \<and>
   ggml_p9ml_mixed_precision_quantize (Some 1) F32_0_5 tree_store = Some (0, [1], tree_store)"
  by (simp add: tree_store_membranes tree_store_slices ggml_p9ml_forward_tiled_qat_def
      ggml_p9ml_mixed_precision_quantize_def)

lemma tree_store_malloc: "malloc_ok tree_store k"
  by (simp add: tree_store_def example_store_def)

lemma tree_store_reach: "reachable tree_store 1 2"
proof -
  have "Some 2 \<in> set [Some 2, Some 3 :: addr option]" by simp
  with tree_store_membranes(1) tree_store_slices(1) have "reachable tree_store (Suc 0) 2"
    using reachable_self by (rule reachable_child)
  then show ?thesis by simp
qed

text \<open>
  C9. Whenever \<^verbatim>\<open>ggml_p9ml_membrane_evolve\<close> returns, the store is the one before the call.
  On a well-formed structure of depth at most \<open>n\<close> it returns 0, having gone through the
  membranes in preorder.
\<close>

theorem evolve_pure:
  "(ggml_p9ml_membrane_evolve n p st = Some (r, vis, st') \<longrightarrow> st' = st) \<and>
   (tree_inv any_membrane st n a \<longrightarrow>
      ggml_p9ml_membrane_evolve n (Some a) st = Some (0, preorder st n a, st))"
  using evolve_state(1) [of n p st r vis st'] evolve_preorder [of any_membrane st n a]
  by blast

theorem evolve_pure_witness:
  "tree_inv any_membrane tree_store (Suc (Suc 0)) 1 \<and>
   ggml_p9ml_membrane_evolve (Suc (Suc 0)) (Some 1) tree_store = Some (0, [1, 2, 3], tree_store)"
  using evolve_pure [of "Suc (Suc 0)" "Some 1" tree_store 0 "[1, 2, 3]" tree_store 1]
    tree_store_tree tree_store_preorder
  by simp

text \<open>
  C3. \<^verbatim>\<open>ggml_p9ml_namespace_set_root\<close> with a \<^verbatim>\<open>NULL\<close> root returns -1 and leaves the store
  as it is. With an allocated namespace \<open>k\<close> and a well-formed structure below \<open>r\<close> it
  returns 0, the namespace's root is \<open>r\<close>, and every membrane reachable from \<open>r\<close> has the
  namespace pointer \<open>k\<close>, whatever it had before; the membranes reachable from \<open>r\<close> are
  the same before and after.
\<close>

theorem set_root_propagates:
  "ggml_p9ml_namespace_set_root n nsp None st = Some (- 1, st) \<and>
   (namespaces st k = Some N \<and> tree_inv any_membrane st n r \<longrightarrow>
      (\<exists>st' N'. ggml_p9ml_namespace_set_root n (Some k) (Some r) st = Some (0, st') \<and>
         namespaces st' k = Some N' \<and> ns_root N' = Some r \<and>
         (\<forall>b. reachable st r b \<longrightarrow>
            reachable st' r b \<and> (\<exists>m'. membranes st' b = Some m' \<and> ns m' = Some k)) \<and>
         (\<forall>b. reachable st' r b \<longrightarrow> reachable st r b)))"
proof (intro conjI impI)
  show "ggml_p9ml_namespace_set_root n nsp None st = Some (- 1, st)"
    by (cases nsp) (simp_all add: ggml_p9ml_namespace_set_root_def)
next
  assume "namespaces st k = Some N \<and> tree_inv any_membrane st n r"
  then have N: "namespaces st k = Some N" and t: "tree_inv any_membrane st n r" by simp_all
  let ?s1 = "put_namespace k (N\<lparr>ns_root := Some r\<rparr>) st"
  have l1: "same_links st ?s1" by (simp add: same_links_def put_namespace_def)
  from propagate_reach [OF tree_inv_links [OF l1 t], of k] obtain st' where
    s: "ggml_p9ml_propagate_namespace n (Some r) (Some k) ?s1 = Some st'"
    and h: "\<And>x. reachable ?s1 r x \<Longrightarrow> has_ns k st' x" by blast
  have f: "ns_frame k ?s1 st'" using s by (rule propagate_frame)
  then have l2: "same_links ?s1 st'" by (rule ns_frame_links)
  have l: "same_links st st'" using l1 l2 by (rule same_links_trans)
  have "namespaces st' = namespaces ?s1" using ns_frame_others [OF f] by simp
  then have "namespaces st' k = Some (N\<lparr>ns_root := Some r\<rparr>)"
    by (simp add: put_namespace_def)
  moreover have "reachable st' r b \<and> (\<exists>m'. membranes st' b = Some m' \<and> ns m' = Some k)"
    if "reachable st r b" for b
  proof -
    have "has_ns k st' b" using reachable_links [OF l1 that] by (rule h)
    then have "\<exists>m'. membranes st' b = Some m' \<and> ns m' = Some k"
      by (auto simp: has_ns_def split: option.splits)
    with reachable_links [OF l that] show ?thesis by simp
  qed
  moreover have "reachable st r b" if "reachable st' r b" for b
    using same_links_sym [OF l] that by (rule reachable_links)
  moreover have "ggml_p9ml_namespace_set_root n (Some k) (Some r) st = Some (0, st')"
    using N s by (simp add: ggml_p9ml_namespace_set_root_def)
  ultimately show "\<exists>st' N'. ggml_p9ml_namespace_set_root n (Some k) (Some r) st = Some (0, st') \<and>
         namespaces st' k = Some N' \<and> ns_root N' = Some r \<and>
         (\<forall>b. reachable st r b \<longrightarrow>
            reachable st' r b \<and> (\<exists>m'. membranes st' b = Some m' \<and> ns m' = Some k)) \<and>
         (\<forall>b. reachable st' r b \<longrightarrow> reachable st r b)"
    by auto
qed

theorem set_root_propagates_witness:
  "namespaces tree_store 7 = Some example_namespace \<and>
   tree_inv any_membrane tree_store (Suc (Suc 0)) 1 \<and>
   (\<exists>m. membranes tree_store 2 = Some m \<and> ns m = Some 5) \<and>
   (\<exists>st' m'. ggml_p9ml_namespace_set_root (Suc (Suc 0)) (Some 7) (Some 1) tree_store
        = Some (0, st') \<and>
      membranes st' 2 = Some m' \<and> ns m' = Some 7)"
proof -
  have n: "namespaces tree_store 7 = Some example_namespace"
    by (simp add: tree_store_def)
  from set_root_propagates [of "Suc (Suc 0)" None tree_store 7 example_namespace 1]
    n tree_store_tree
  obtain st' where "ggml_p9ml_namespace_set_root (Suc (Suc 0)) (Some 7) (Some 1) tree_store
        = Some (0, st')"
    and "\<And>b. reachable tree_store 1 b \<Longrightarrow> \<exists>m'. membranes st' b = Some m' \<and> ns m' = Some 7"
    by blast
  with tree_store_reach n tree_store_tree tree_store_membranes(2) show ?thesis
    by auto
qed

text \<open>
  C8, amended. \<^verbatim>\<open>ggml_p9ml_apply_data_free_qat\<close> returns -1 when the membrane or the
  configuration is \<^verbatim>\<open>NULL\<close>. On a well-formed structure it returns, with 0 or -1, and with
  -1 exactly when the root has no stored configuration and the allocation of its copy
  fails.
\<close>

theorem apply_data_free_qat_result:
  "ggml_p9ml_apply_data_free_qat F n None cp st = Some (- 1, [], st) \<and>
   ggml_p9ml_apply_data_free_qat F n p None st = Some (- 1, [], st) \<and>
   (tree_inv (objects_ok st) st n a \<longrightarrow>
      (\<exists>r vis st'.
         ggml_p9ml_apply_data_free_qat F n (Some a) (Some config) st = Some (r, vis, st') \<and>
         (r = 0 \<or> r = - 1) \<and>
         (r = - 1 \<longleftrightarrow> (\<exists>m. membranes st a = Some m \<and> qat_config m = None) \<and>
                       \<not> malloc_ok st (malloc_calls st))))"
proof (intro conjI impI)
  show "ggml_p9ml_apply_data_free_qat F n None cp st = Some (- 1, [], st)" by simp
  show "ggml_p9ml_apply_data_free_qat F n p None st = Some (- 1, [], st)" by (cases p) simp_all
  assume "tree_inv (objects_ok st) st n a"
  then show "\<exists>r vis st'.
         ggml_p9ml_apply_data_free_qat F n (Some a) (Some config) st = Some (r, vis, st') \<and>
         (r = 0 \<or> r = - 1) \<and>
         (r = - 1 \<longleftrightarrow> (\<exists>m. membranes st a = Some m \<and> qat_config m = None) \<and>
                       \<not> malloc_ok st (malloc_calls st))"
    by (rule apply_defined)
qed

theorem apply_data_free_qat_result_witness:
  "tree_inv (objects_ok tree_store) tree_store (Suc (Suc 0)) 1 \<and>
   (\<exists>vis st'. ggml_p9ml_apply_data_free_qat example_fpu (Suc (Suc 0)) (Some 1)
        (Some (example_config F32_0_1)) tree_store = Some (0, vis, st'))"
proof -
  from apply_data_free_qat_result [of example_fpu "Suc (Suc 0)" None tree_store None 1
      "example_config F32_0_1"] tree_store_qat_tree
  obtain r vis st' where
    "ggml_p9ml_apply_data_free_qat example_fpu (Suc (Suc 0)) (Some 1)
        (Some (example_config F32_0_1)) tree_store = Some (r, vis, st')"
    "r = 0 \<or> r = - 1" "r = - 1 \<longrightarrow> \<not> malloc_ok tree_store (malloc_calls tree_store)"
    by blast
  with tree_store_malloc tree_store_qat_tree show ?thesis by blast
qed





lemma half_store_facts:
  "membranes half_store (Suc 0) = Some (example_membrane [] 0 [Some 20, Some 21] 2)"
  "tensors half_store 20
     = Some \<lparr>ttype = GGML_TYPE_F16, nelements = 4, data = Some [0x3C003C00, 0x3C003C00]\<rparr>"
  "tensors half_store 21
     = Some \<lparr>ttype = GGML_TYPE_QUANT 4, nelements = 2, data = Some [17, 34]\<rparr>"
  "malloc_ok half_store = (\<lambda>_. True)"
  by (simp_all add: half_store_def example_store_def half_tensors_def)




lemma half_store_f16: "f16_own_storage half_store 20"
  by (simp add: f16_own_storage_def half_store_facts)




text \<open>
  C6. With arithmetic that rounds and a scale \<open>s\<close> that is not negative, one run of the
  noise loop over an F32 tensor with data for all its elements returns; every element has
  been added one noise value \<open>z\<close>, drawn at its own seed, with \<open>\<bar>z\<bar>\<close> at most \<open>s\<close>, and its
  value lies between the old float minus \<open>s\<close> and the old float plus \<open>s\<close>, both as the unit
  computes them; with \<open>s = 0\<close> the value is the old one, and a pass with \<open>s = 0\<close> keeps the
  value of every float of every tensor. For an F16 tensor in its own storage the loop over
  \<^verbatim>\<open>float * data\<close> does not stay inside the storage.
\<close>

theorem noise_bound:
  "(fpu_rounds F val rnd \<and> 0 \<le> val (noise_scale config) \<and>
    tensors st t = Some T \<and> ttype T = GGML_TYPE_F32 \<and> data T = Some d \<and>
    nelements T \<le> length d \<longrightarrow>
      (\<exists>d1. quant_tensor F config (Some t) st
                = Some (st\<lparr>tensors := (tensors st)(t := Some (T\<lparr>data := Some d1\<rparr>)),
                           seed := (lcg_step ^^ nelements T) (seed st)\<rparr>) \<and>
         length d1 = length d \<and>
         (\<forall>j<nelements T.
            \<exists>z. z = fst (ggml_p9ml_generate_noise F (noise_scale config)
                          ((lcg_step ^^ j) (seed st))) \<and>
                d1 ! j = f32_add F (d ! j) z \<and>
                \<bar>val z\<bar> \<le> val (noise_scale config) \<and>
                val (f32_sub F (d ! j) (noise_scale config)) \<le> val (d1 ! j) \<and>
                val (d1 ! j) \<le> val (f32_add F (d ! j) (noise_scale config)) \<and>
                (val (noise_scale config) = 0 \<longrightarrow> val (d1 ! j) = val (d ! j))) \<and>
         (\<forall>j. nelements T \<le> j \<and> j < length d \<longrightarrow> d1 ! j = d ! j))) \<and>
   (fpu_rounds F val rnd \<and> val (noise_scale config) = 0 \<and>
    ggml_p9ml_apply_data_free_qat F n p (Some config) st = Some (r, vis, st') \<longrightarrow>
      same_values val st st') \<and>
   (f16_own_storage st u \<longrightarrow> quant_tensor F config (Some u) st = None)"
proof (intro conjI impI)
  assume h: "fpu_rounds F val rnd \<and> 0 \<le> val (noise_scale config) \<and>
    tensors st t = Some T \<and> ttype T = GGML_TYPE_F32 \<and> data T = Some d \<and>
    nelements T \<le> length d"
  then have R: "fpu_rounds F val rnd" and s: "0 \<le> val (noise_scale config)"
    and T: "tensors st t = Some T" "float_type (ttype T)" "data T = Some d"
      "nelements T \<le> length d"
    by (simp_all add: float_type_def)
  from quant_tensor_noise [OF T, of F config] obtain d1 where
    q: "quant_tensor F config (Some t) st
          = Some (st\<lparr>tensors := (tensors st)(t := Some (T\<lparr>data := Some d1\<rparr>)),
                     seed := (lcg_step ^^ nelements T) (seed st)\<rparr>)"
    and len: "length d1 = length d"
    and nth: "\<And>j. j < nelements T \<Longrightarrow> d1 ! j = f32_add F (d ! j)
               (fst (ggml_p9ml_generate_noise F (noise_scale config) ((lcg_step ^^ j) (seed st))))"
    and rest: "\<forall>j. nelements T \<le> j \<and> j < length d \<longrightarrow> d1 ! j = d ! j"
    by blast
  have "\<exists>z. z = fst (ggml_p9ml_generate_noise F (noise_scale config)
                          ((lcg_step ^^ j) (seed st))) \<and>
                d1 ! j = f32_add F (d ! j) z \<and>
                \<bar>val z\<bar> \<le> val (noise_scale config) \<and>
                val (f32_sub F (d ! j) (noise_scale config)) \<le> val (d1 ! j) \<and>
                val (d1 ! j) \<le> val (f32_add F (d ! j) (noise_scale config)) \<and>
                (val (noise_scale config) = 0 \<longrightarrow> val (d1 ! j) = val (d ! j))"
    if j: "j < nelements T" for j
  proof -
    let ?z = "fst (ggml_p9ml_generate_noise F (noise_scale config) ((lcg_step ^^ j) (seed st)))"
    from generate_noise_within_scale [OF R, of "noise_scale config" "(lcg_step ^^ j) (seed st)"] s
    have z: "\<bar>val ?z\<bar> \<le> val (noise_scale config)" by simp
    from perturbation_between [OF R s z, of "d ! j"] nth [OF j] z show ?thesis by simp
  qed
  with q len rest
  show "\<exists>d1. quant_tensor F config (Some t) st
                = Some (st\<lparr>tensors := (tensors st)(t := Some (T\<lparr>data := Some d1\<rparr>)),
                           seed := (lcg_step ^^ nelements T) (seed st)\<rparr>) \<and>
         length d1 = length d \<and>
         (\<forall>j<nelements T.
            \<exists>z. z = fst (ggml_p9ml_generate_noise F (noise_scale config)
                          ((lcg_step ^^ j) (seed st))) \<and>
                d1 ! j = f32_add F (d ! j) z \<and>
                \<bar>val z\<bar> \<le> val (noise_scale config) \<and>
                val (f32_sub F (d ! j) (noise_scale config)) \<le> val (d1 ! j) \<and>
                val (d1 ! j) \<le> val (f32_add F (d ! j) (noise_scale config)) \<and>
                (val (noise_scale config) = 0 \<longrightarrow> val (d1 ! j) = val (d ! j))) \<and>
         (\<forall>j. nelements T \<le> j \<and> j < length d \<longrightarrow> d1 ! j = d ! j)"
    by blast
next
  assume "fpu_rounds F val rnd \<and> val (noise_scale config) = 0 \<and>
    ggml_p9ml_apply_data_free_qat F n p (Some config) st = Some (r, vis, st')"
  then show "same_values val st st'" using apply_same_values by blast
next
  assume "f16_own_storage st u"
  then have "overrun st u" by (rule f16_own_storage_overrun)
  then show "quant_tensor F config (Some u) st = None" by (rule quant_tensor_overrun)
qed

theorem noise_bound_witness:
  "fpu_rounds small_fpu small_val small_rnd \<and>
   small_val (noise_scale (example_config F32_0_5)) = 1 / 2 \<and>
   tensors tree_store 10
     = Some \<lparr>ttype = GGML_TYPE_F32, nelements = 2, data = Some [F32_1_0, F32_2_0]\<rparr> \<and>
   (\<exists>st1 d1. quant_tensor small_fpu (example_config F32_0_5) (Some 10) tree_store = Some st1 \<and>
      tensors st1 10 = Some \<lparr>ttype = GGML_TYPE_F32, nelements = 2, data = Some d1\<rparr> \<and>
      length d1 = 2 \<and>
      small_val (f32_sub small_fpu F32_2_0 F32_0_5) \<le> small_val (d1 ! 1) \<and>
      small_val (d1 ! 1) \<le> small_val (f32_add small_fpu F32_2_0 F32_0_5)) \<and>
   small_val (noise_scale (example_config 0)) = 0 \<and>
   (\<exists>r vis st'. ggml_p9ml_apply_data_free_qat small_fpu (Suc (Suc 0)) (Some 1)
        (Some (example_config 0)) tree_store = Some (r, vis, st') \<and>
      same_values small_val tree_store st') \<and>
   f16_own_storage half_store 20 \<and>
   quant_tensor small_fpu (example_config F32_0_5) (Some 20) half_store = None"
proof -
  let ?T = "\<lparr>ttype = GGML_TYPE_F32, nelements = 2, data = Some [F32_1_0, F32_2_0]\<rparr>"
  let ?A = "example_config F32_0_5" and ?Z = "example_config 0"
  have sA: "small_val (noise_scale ?A) = 1 / 2"
    by (simp add: example_config_def small_val_literals)
  have sZ: "small_val (noise_scale ?Z) = 0"
    by (simp add: example_config_def small_val_def F32_0_5_def F32_1_0_def F32_2_0_def)
  have h: "fpu_rounds small_fpu small_val small_rnd \<and> 0 \<le> small_val (noise_scale ?A) \<and>
    tensors tree_store 10 = Some ?T \<and> ttype ?T = GGML_TYPE_F32 \<and>
    data ?T = Some [F32_1_0, F32_2_0] \<and> nelements ?T \<le> length [F32_1_0, F32_2_0]"
    using small_fpu_rounds tree_store_tensors(1) sA by simp
  from noise_bound [of small_fpu small_val small_rnd ?A tree_store 10 ?T "[F32_1_0, F32_2_0]"
      0 None 0 "[]" tree_store 20, THEN conjunct1, rule_format, OF h]
  obtain d1 where
    q: "quant_tensor small_fpu ?A (Some 10) tree_store
          = Some (tree_store\<lparr>tensors := (tensors tree_store)(10 := Some (?T\<lparr>data := Some d1\<rparr>)),
                     seed := (lcg_step ^^ nelements ?T) (seed tree_store)\<rparr>)"
    and len: "length d1 = length [F32_1_0, F32_2_0]"
    and b: "\<forall>j<nelements ?T.
            \<exists>z. z = fst (ggml_p9ml_generate_noise small_fpu (noise_scale ?A)
                          ((lcg_step ^^ j) (seed tree_store))) \<and>
                d1 ! j = f32_add small_fpu ([F32_1_0, F32_2_0] ! j) z \<and>
                \<bar>small_val z\<bar> \<le> small_val (noise_scale ?A) \<and>
                small_val (f32_sub small_fpu ([F32_1_0, F32_2_0] ! j) (noise_scale ?A))
                  \<le> small_val (d1 ! j) \<and>
                small_val (d1 ! j)
                  \<le> small_val (f32_add small_fpu ([F32_1_0, F32_2_0] ! j) (noise_scale ?A)) \<and>
                (small_val (noise_scale ?A) = 0 \<longrightarrow>
                   small_val (d1 ! j) = small_val ([F32_1_0, F32_2_0] ! j))"
    by blast
  have "(1::nat) < nelements ?T" by simp
  with b have "small_val (f32_sub small_fpu ([F32_1_0, F32_2_0] ! 1) (noise_scale ?A))
                  \<le> small_val (d1 ! 1) \<and>
                small_val (d1 ! 1)
                  \<le> small_val (f32_add small_fpu ([F32_1_0, F32_2_0] ! 1) (noise_scale ?A))"
    by blast
  then have b1: "small_val (f32_sub small_fpu F32_2_0 F32_0_5) \<le> small_val (d1 ! 1) \<and>
      small_val (d1 ! 1) \<le> small_val (f32_add small_fpu F32_2_0 F32_0_5)"
    by (simp add: example_config_def)
  have part1: "\<exists>st1 d1. quant_tensor small_fpu ?A (Some 10) tree_store = Some st1 \<and>
      tensors st1 10 = Some \<lparr>ttype = GGML_TYPE_F32, nelements = 2, data = Some d1\<rparr> \<and>
      length d1 = 2 \<and>
      small_val (f32_sub small_fpu F32_2_0 F32_0_5) \<le> small_val (d1 ! 1) \<and>
      small_val (d1 ! 1) \<le> small_val (f32_add small_fpu F32_2_0 F32_0_5)"
    using q len b1 by simp
  from apply_defined [OF tree_store_qat_tree, of small_fpu ?Z] obtain r vis st' where
    run: "ggml_p9ml_apply_data_free_qat small_fpu (Suc (Suc 0)) (Some 1) (Some ?Z) tree_store
            = Some (r, vis, st')"
    by blast
  from noise_bound [of small_fpu small_val small_rnd ?Z tree_store 10 ?T "[F32_1_0, F32_2_0]"
      "Suc (Suc 0)" "Some 1" r vis st' 20, THEN conjunct2, THEN conjunct1, rule_format]
    small_fpu_rounds sZ run
  have "same_values small_val tree_store st'" by blast
  with run have part2: "\<exists>r vis st'. ggml_p9ml_apply_data_free_qat small_fpu (Suc (Suc 0)) (Some 1)
        (Some ?Z) tree_store = Some (r, vis, st') \<and> same_values small_val tree_store st'"
    by blast
  from noise_bound [of small_fpu small_val small_rnd ?A half_store 10 ?T "[F32_1_0, F32_2_0]"
      0 None 0 "[]" half_store 20, THEN conjunct2, THEN conjunct2, rule_format, OF half_store_f16]
  have part3: "quant_tensor small_fpu ?A (Some 20) half_store = None" .
  from small_fpu_rounds sA tree_store_tensors(1) part1 sZ part2 half_store_f16 part3
  show ?thesis by blast
qed



end
